theory Spec2Isabelle
  imports Main "HOL-Library.Sublist"
begin

section \<open>Strings\<close>

text \<open>
  A JavaScript string is a sequence of UTF-16 code units. This development covers text
  whose code units lie in U+0000..U+00FF (ASCII and Latin-1): one \<^typ>\<open>char\<close> stands for
  one code unit. All keywords and all regular expressions of the module are ASCII.

  \<open>String.prototype.toLowerCase\<close> on that range maps \<open>A\<close>..\<open>Z\<close> (65..90) and the Latin-1
  capitals U+00C0..U+00DE, except the multiplication sign U+00D7, to the code unit 32
  above, and leaves every other code unit alone.
\<close>

definition toLowerCU :: "char \<Rightarrow> char" where
  "toLowerCU c =
     (let n = (of_char c :: nat)
      in if (65 \<le> n \<and> n \<le> 90) \<or> (192 \<le> n \<and> n \<le> 222 \<and> n \<noteq> 215)
         then char_of (n + 32) else c)"

definition toLowerCase :: "string \<Rightarrow> string" where
  "toLowerCase s = map toLowerCU s"

text \<open>
  \<open>text.includes(keyword)\<close>: the keyword occurs at some position of the text. The scan
  tries every start position from the left.
\<close>

fun includesStr :: "string \<Rightarrow> string \<Rightarrow> bool" where
  "includesStr [] keyword = (keyword = [])"
| "includesStr (x # xs) keyword = (prefix keyword (x # xs) \<or> includesStr xs keyword)"

section \<open>Types of \<open>types/task.ts\<close>\<close>

datatype TaskCategory = Scheduling | Finance | Technical | Safety | General

datatype TaskPriority = High | Medium | Low

record ExtractedEntities =
  dates :: "string list"
  people :: "string list"
  locations :: "string list"
  actionVerbs :: "string list"

record ClassificationResult =
  category :: TaskCategory
  priority :: TaskPriority
  extracted_entities :: ExtractedEntities
  suggested_actions :: "string list"

section \<open>Keyword tables\<close>

text \<open>
  \<open>categoryKeywords\<close> is an object literal; \<open>Object.entries\<close> enumerates its string keys in
  insertion order, so the table is an association list in the order of the source.
\<close>

definition categoryKeywords :: "(TaskCategory \<times> string list) list" where
  "categoryKeywords =
    [(Scheduling, [''meeting'', ''schedule'', ''call'', ''appointment'', ''deadline'',
                   ''calendar'', ''event'', ''reminder'', ''agenda'']),
     (Finance, [''payment'', ''invoice'', ''bill'', ''budget'', ''cost'', ''expense'',
                ''money'', ''price'', ''financial'', ''revenue'']),
     (Technical, [''bug'', ''fix'', ''error'', ''install'', ''repair'', ''maintain'',
                  ''update'', ''deploy'', ''code'', ''system'', ''server'']),
     (Safety, [''safety'', ''hazard'', ''inspection'', ''compliance'', ''ppe'', ''risk'',
               ''emergency'', ''warning'', ''secure'']),
     (General, [])]"

record PriorityKeywords =
  high :: "string list"
  medium :: "string list"
  low :: "string list"

definition priorityKeywords :: PriorityKeywords where
  "priorityKeywords =
    \<lparr> high = [''urgent'', ''asap'', ''immediately'', ''today'', ''critical'', ''emergency'',
               ''now'', ''priority'', ''important''],
      medium = [''soon'', ''this week'', ''important'', ''needed'', ''should''],
      low = [''whenever'', ''low priority'', ''eventually'', ''later'', ''someday''] \<rparr>"

fun suggestedActions :: "TaskCategory \<Rightarrow> string list" where
  "suggestedActions Scheduling =
     [''Block calendar'', ''Send invite'', ''Prepare agenda'', ''Set reminder'']"
| "suggestedActions Finance =
     [''Check budget'', ''Get approval'', ''Generate invoice'', ''Update records'']"
| "suggestedActions Technical =
     [''Diagnose issue'', ''Check resources'', ''Assign technician'', ''Document fix'']"
| "suggestedActions Safety =
     [''Conduct inspection'', ''File report'', ''Notify supervisor'', ''Update checklist'']"
| "suggestedActions General =
     [''Review requirements'', ''Assign team member'', ''Set deadline'', ''Create subtasks'']"

section \<open>Category and priority classification\<close>

text \<open>The inner loop of \<open>classifyCategory\<close>: \<open>score++\<close> for every keyword the text includes.\<close>

definition keywordScore :: "string \<Rightarrow> string list \<Rightarrow> nat" where
  "keywordScore lowerText keywords =
     foldl (\<lambda>score keyword. if includesStr lowerText keyword then score + 1 else score)
       0 keywords"

text \<open>
  The outer loop carries \<open>(maxScore, bestCategory)\<close>, skips \<open>general\<close> and replaces the best
  category only on a strictly greater score.
\<close>

definition classifyCategory :: "string \<Rightarrow> TaskCategory" where
  "classifyCategory text =
     (let lowerText = toLowerCase text
      in snd (foldl
           (\<lambda>(maxScore, bestCategory) (category, keywords).
              if category = General then (maxScore, bestCategory)
              else let score = keywordScore lowerText keywords
                   in if score > maxScore then (score, category)
                      else (maxScore, bestCategory))
           (0, General) categoryKeywords))"

text \<open>
  \<open>classifyPriority\<close> reads the module constant \<open>priorityKeywords\<close>. The body is written
  over a table parameter so that the part of the table it depends on can be stated;
  \<open>classifyPriority\<close> itself is the body at the module's table.
\<close>

definition classifyPriorityWith :: "PriorityKeywords \<Rightarrow> string \<Rightarrow> TaskPriority" where
  "classifyPriorityWith table text =
     (let lowerText = toLowerCase text
      in if list_ex (\<lambda>keyword. includesStr lowerText keyword) (high table) then High
         else if list_ex (\<lambda>keyword. includesStr lowerText keyword) (medium table) then Medium
         else Low)"

definition classifyPriority :: "string \<Rightarrow> TaskPriority" where
  "classifyPriority text = classifyPriorityWith priorityKeywords text"

text \<open>Table lookup \<open>categoryKeywords[c]\<close>.\<close>

definition keywordsOf :: "TaskCategory \<Rightarrow> string list" where
  "keywordsOf c = (case map_of categoryKeywords c of Some ks \<Rightarrow> ks | None \<Rightarrow> [])"

section \<open>Regular expressions\<close>

text \<open>
  The module's patterns are JavaScript regular expressions without the \<open>u\<close> flag. Their
  syntax is a datatype; \<open>Rep min max r\<close> is the greedy quantifier \<open>r{min,max}\<close> with
  \<open>None\<close> for no upper bound (\<open>*\<close> is \<open>Rep 0 None\<close>, \<open>+\<close> is \<open>Rep 1 None\<close>, \<open>?\<close> is
  \<open>Rep 0 (Some 1)\<close>), \<open>Grp n r\<close> is the \<open>n\<close>-th capturing group, \<open>WordB\<close> is \<open>\b\<close>, and a
  class is a list of inclusive code-unit ranges.
\<close>

datatype regex =
    Chr char
  | Cls "(char \<times> char) list"
  | Eps
  | Seq regex regex
  | Alt regex regex
  | Rep nat "nat option" regex
  | Grp nat regex
  | WordB

fun seqs :: "regex list \<Rightarrow> regex" where
  "seqs [] = Eps"
| "seqs [r] = r"
| "seqs (r # rs) = Seq r (seqs rs)"

fun alts :: "regex list \<Rightarrow> regex" where
  "alts [] = Eps"
| "alts [r] = r"
| "alts (r # rs) = Alt r (alts rs)"

definition lit :: "string \<Rightarrow> regex" where
  "lit s = seqs (map Chr s)"

definition words :: "string list \<Rightarrow> regex" where
  "words ws = alts (map lit ws)"

definition digit :: regex where
  "digit = Cls [(CHR ''0'', CHR ''9'')]"

definition upperAZ :: regex where
  "upperAZ = Cls [(CHR ''A'', CHR ''Z'')]"

definition lowerAZ :: regex where
  "lowerAZ = Cls [(CHR ''a'', CHR ''z'')]"

text \<open>\<open>\s\<close>: tab, line feed, vertical tab, form feed, carriage return, space, no-break space.\<close>

definition whiteSpaceRanges :: "(char \<times> char) list" where
  "whiteSpaceRanges = [(CHR 0x09, CHR 0x0D), (CHR 0x20, CHR 0x20), (CHR 0xA0, CHR 0xA0)]"

definition space :: regex where
  "space = Cls whiteSpaceRanges"

text \<open>\<open>\w\<close>, which is also the set of word characters of \<open>\b\<close>.\<close>

definition wordRanges :: "(char \<times> char) list" where
  "wordRanges =
     [(CHR ''a'', CHR ''z''), (CHR ''A'', CHR ''Z''), (CHR ''0'', CHR ''9''), (CHR ''_'', CHR ''_'')]"

definition wordChar :: regex where
  "wordChar = Cls wordRanges"

definition inRanges :: "(char \<times> char) list \<Rightarrow> char \<Rightarrow> bool" where
  "inRanges rs c =
     list_ex (\<lambda>(lo, hi). (of_char lo :: nat) \<le> of_char c \<and> (of_char c :: nat) \<le> of_char hi) rs"

definition isWordChar :: "char \<Rightarrow> bool" where
  "isWordChar c = inRanges wordRanges c"

text \<open>
  With the \<open>i\<close> flag a code unit is compared through \<open>Canonicalize\<close>, its upper-case
  mapping when that is a single code unit. On U+0000..U+00FF this maps \<open>a\<close>..\<open>z\<close> and
  U+00E0..U+00FE, except the division sign U+00F7, to the code unit 32 below. (The two
  code units U+00B5 and U+00FF canonicalize to code units beyond U+00FF that no other
  code unit of the range reaches; they are left alone here, which gives the same
  comparisons.)
\<close>

definition toUpperCU :: "char \<Rightarrow> char" where
  "toUpperCU c =
     (let n = (of_char c :: nat)
      in if (97 \<le> n \<and> n \<le> 122) \<or> (224 \<le> n \<and> n \<le> 254 \<and> n \<noteq> 247)
         then char_of (n - 32) else c)"

definition canonicalize :: "bool \<Rightarrow> char \<Rightarrow> char" where
  "canonicalize ic ch = (if ic then toUpperCU ch else ch)"

text \<open>
  A class matches a code unit when some member of the class has the same canonical form.
  The canonical classes on this range are the pairs of a letter's two cases, so the test
  looks at the code unit and at its two case mappings.
\<close>

definition classMatches :: "bool \<Rightarrow> (char \<times> char) list \<Rightarrow> char \<Rightarrow> bool" where
  "classMatches ic rs ch =
     (inRanges rs ch \<or> (ic \<and> (inRanges rs (toUpperCU ch) \<or> inRanges rs (toLowerCU ch))))"

text \<open>
  A matcher state is a position in the input: the code unit before it (for \<open>\b\<close>), the
  input from it on, and the captures so far.
\<close>

record MState =
  prev :: "char option"
  rest :: string
  captures :: "nat \<Rightarrow> string option"

fun groupsOf :: "regex \<Rightarrow> nat list" where
  "groupsOf (Seq r1 r2) = groupsOf r1 @ groupsOf r2"
| "groupsOf (Alt r1 r2) = groupsOf r1 @ groupsOf r2"
| "groupsOf (Rep mn mx r) = groupsOf r"
| "groupsOf (Grp n r) = n # groupsOf r"
| "groupsOf _ = []"

fun rsize :: "regex \<Rightarrow> nat" where
  "rsize (Seq r1 r2) = Suc (rsize r1 + rsize r2)"
| "rsize (Alt r1 r2) = Suc (rsize r1 + rsize r2)"
| "rsize (Rep mn mx r) = Suc (rsize r)"
| "rsize (Grp n r) = Suc (rsize r)"
| "rsize _ = 0"

fun repMin :: "regex \<Rightarrow> nat" where
  "repMin (Rep mn mx r) = mn"
| "repMin _ = 0"

text \<open>
  The backtracking matcher. \<open>matcher ic r x\<close> lists the states in which \<open>r\<close> can end when
  started in \<open>x\<close>, in the order in which backtracking tries them; the head of the list is
  the match the engine reports. A quantifier tries one more iteration before it tries to
  stop (greedy), clears the captures of its body before each iteration, and, once its
  minimum is reached, refuses an iteration that consumed nothing.
\<close>

function (sequential) matcher :: "bool \<Rightarrow> regex \<Rightarrow> MState \<Rightarrow> MState list" where
  "matcher ic (Chr c) x =
     (case rest x of
        [] \<Rightarrow> []
      | ch # cs \<Rightarrow>
          if canonicalize ic ch = canonicalize ic c then [x\<lparr>prev := Some ch, rest := cs\<rparr>]
          else [])"
| "matcher ic (Cls rs) x =
     (case rest x of
        [] \<Rightarrow> []
      | ch # cs \<Rightarrow>
          if classMatches ic rs ch then [x\<lparr>prev := Some ch, rest := cs\<rparr>]
          else [])"
| "matcher ic Eps x = [x]"
| "matcher ic (Seq r1 r2) x = concat (map (matcher ic r2) (matcher ic r1 x))"
| "matcher ic (Alt r1 r2) x = matcher ic r1 x @ matcher ic r2 x"
| "matcher ic (Grp n r) x =
     map (\<lambda>y. y\<lparr>captures :=
                  (captures y)(n \<mapsto> take (length (rest x) - length (rest y)) (rest x))\<rparr>)
       (matcher ic r x)"
| "matcher ic WordB x =
     (let a = (case prev x of None \<Rightarrow> False | Some c \<Rightarrow> isWordChar c);
          b = (case rest x of [] \<Rightarrow> False | c # _ \<Rightarrow> isWordChar c)
      in if a \<noteq> b then [x] else [])"
| "matcher ic (Rep mn mx r) x =
     (if mx = Some 0 then [x]
      else concat (map
             (\<lambda>y. if mn = 0 \<and> length (rest x) \<le> length (rest y) then []
                  else matcher ic (Rep (mn - 1) (map_option (\<lambda>k. k - 1) mx) r) y)
             (matcher ic r
                (x\<lparr>captures := (\<lambda>k. if k \<in> set (groupsOf r) then None else captures x k)\<rparr>)))
           @ (if mn = 0 then [x] else []))"
  by pat_completeness auto
termination
  by (relation "inv_image (less_than <*lex*> less_than <*lex*> less_than)
        (\<lambda>(ic, r, x). (rsize r, repMin r, length (rest x)))") auto

declare matcher.simps [simp del]

section \<open>RegExp objects\<close>

text \<open>
  A \<open>RegExp\<close> object has its pattern, its flags and the mutable \<open>lastIndex\<close>. Every
  regular expression of the module carries the \<open>g\<close> flag, so the flag is not a field:
  \<open>exec\<close> and \<open>match\<close> below are the global variants. \<open>ignoreCase\<close> is the \<open>i\<close> flag.
\<close>

record RegExp =
  source :: regex
  ignoreCase :: bool
  lastIndex :: nat

definition newRegExp :: "regex \<Rightarrow> bool \<Rightarrow> RegExp" where
  "newRegExp src ic = \<lparr> source = src, ignoreCase = ic, lastIndex = 0 \<rparr>"

text \<open>The result array of \<open>exec\<close>: \<open>index\<close>, \<open>match[0]\<close>, and \<open>match[n]\<close> for the groups.\<close>

record Match =
  index :: nat
  matched :: string
  groups :: "nat \<Rightarrow> string option"

definition stateAt :: "string \<Rightarrow> nat \<Rightarrow> MState" where
  "stateAt S i =
     \<lparr> prev = (if i = 0 then None else Some (S ! (i - 1))),
       rest = drop i S,
       captures = (\<lambda>_. None) \<rparr>"

text \<open>
  \<open>RegExpBuiltinExec\<close>: from \<open>lastIndex\<close> on, the first index at which the matcher
  succeeds; past the end of the input the search fails.
\<close>

function searchFrom :: "RegExp \<Rightarrow> string \<Rightarrow> nat \<Rightarrow> (nat \<times> MState) option" where
  "searchFrom R S i =
     (if i > length S then None
      else case matcher (ignoreCase R) (source R) (stateAt S i) of
             y # _ \<Rightarrow> Some (i, y)
           | [] \<Rightarrow> searchFrom R S (i + 1))"
  by pat_completeness auto
termination
  by (relation "measure (\<lambda>(R, S, i). Suc (length S) - i)") auto

declare searchFrom.simps [simp del]

text \<open>
  A failed search sets \<open>lastIndex\<close> to 0; a match sets it to the end index, the start index
  plus the number of code units consumed.
\<close>

definition exec :: "RegExp \<Rightarrow> string \<Rightarrow> Match option \<times> RegExp" where
  "exec R S =
     (case searchFrom R S (lastIndex R) of
        None \<Rightarrow> (None, R\<lparr>lastIndex := 0\<rparr>)
      | Some (i, y) \<Rightarrow>
          let n = length (drop i S) - length (rest y)
          in (Some \<lparr> index = i, matched = take n (drop i S), groups = captures y \<rparr>,
              R\<lparr>lastIndex := i + n\<rparr>))"

lemma searchFrom_bounds:
  "searchFrom R S i = Some (j, y) \<Longrightarrow> i \<le> j \<and> j \<le> length S"
proof (induction R S i rule: searchFrom.induct)
  case (1 R S i)
  show ?case
  proof (cases "matcher (ignoreCase R) (source R) (stateAt S i)")
    case Nil
    with "1.prems" have le: "\<not> length S < i" and step: "searchFrom R S (i + 1) = Some (j, y)"
      by (auto simp: searchFrom.simps [of R S i] split: if_splits)
    from "1.IH" [OF le Nil step] show ?thesis by simp
  next
    case (Cons z zs)
    with "1.prems" show ?thesis
      by (auto simp: searchFrom.simps [of R S i] split: if_splits)
  qed
qed

lemma exec_lastIndex:
  assumes "exec R S = (Some result, R')"
  shows "lastIndex R \<le> index result \<and> index result \<le> length S
       \<and> lastIndex R' = index result + length (matched result)
       \<and> lastIndex R' \<le> length S"
proof -
  from assms obtain i y where s: "searchFrom R S (lastIndex R) = Some (i, y)"
    by (auto simp: exec_def split: option.splits)
  from searchFrom_bounds [OF s] have b: "lastIndex R \<le> i" "i \<le> length S" by simp_all
  from assms s have "result = \<lparr> index = i,
      matched = take (length (drop i S) - length (rest y)) (drop i S), groups = captures y \<rparr>"
    and "R' = R\<lparr>lastIndex := i + (length (drop i S) - length (rest y))\<rparr>"
    by (simp_all add: exec_def Let_def)
  with b show ?thesis by (auto simp: min_def)
qed

text \<open>
  \<open>String.prototype.match\<close> with a global regular expression: \<open>lastIndex\<close> is set to 0,
  then \<open>exec\<close> runs until it fails; every \<open>match[0]\<close> is collected, and after an empty
  match \<open>lastIndex\<close> is advanced by one. The result is \<open>null\<close> when nothing matched.
\<close>

function matchLoop :: "RegExp \<Rightarrow> string \<Rightarrow> string list \<Rightarrow> string list \<times> RegExp" where
  "matchLoop rx S A =
     (case exec rx S of
        (None, rx') \<Rightarrow> (A, rx')
      | (Some result, rx') \<Rightarrow>
          let matchStr = matched result
          in matchLoop
               (if matchStr = [] then rx'\<lparr>lastIndex := lastIndex rx' + 1\<rparr> else rx')
               S (A @ [matchStr]))"
  by pat_completeness auto
termination matchLoop
proof (relation "measure (\<lambda>(rx, S, A). Suc (length S) - lastIndex rx)", goal_cases)
  case 1
  show ?case by simp
next
  case (2 rx S A x1 rx' result matchStr)
  from 2 have "exec rx S = (Some result, rx')" by simp
  from exec_lastIndex [OF this] 2(3) show ?case
    by (cases "matched result") auto
qed

declare matchLoop.simps [simp del]

definition stringMatch :: "string \<Rightarrow> RegExp \<Rightarrow> string list option \<times> RegExp" where
  "stringMatch text rx =
     (let (A, rx') = matchLoop (rx\<lparr>lastIndex := 0\<rparr>) text []
      in (if A = [] then None else Some A, rx'))"

section \<open>Sets of strings\<close>

text \<open>
  A JavaScript \<open>Set\<close> keeps its members in insertion order and \<open>Array.from\<close> returns them in
  that order: a list without duplicates, to which \<open>add\<close> appends a new member only.
\<close>

definition setAdd :: "string list \<Rightarrow> string \<Rightarrow> string list" where
  "setAdd members x = (if x \<in> set members then members else members @ [x])"

definition isWhiteSpace :: "char \<Rightarrow> bool" where
  "isWhiteSpace c = inRanges whiteSpaceRanges c"

definition trim :: "string \<Rightarrow> string" where
  "trim s = rev (dropWhile isWhiteSpace (rev (dropWhile isWhiteSpace s)))"

section \<open>Patterns of the module\<close>

definition datePatternList :: "RegExp list" where
  "datePatternList =
    [newRegExp (seqs [WordB, Grp 1 (words [''today'', ''tomorrow'', ''yesterday'']), WordB]) True,
     newRegExp (seqs [WordB,
        Grp 1 (words [''monday'', ''tuesday'', ''wednesday'', ''thursday'', ''friday'',
                      ''saturday'', ''sunday'']), WordB]) True,
     newRegExp (seqs [WordB, Rep 1 (Some 2) digit, Chr CHR ''/'', Rep 1 (Some 2) digit,
        Rep 0 (Some 1) (Grp 1 (seqs [Chr CHR ''/'', Rep 2 (Some 4) digit])), WordB]) False,
     newRegExp (seqs [WordB, Rep 1 (Some 2) digit, Chr CHR ''-'', Rep 1 (Some 2) digit,
        Rep 0 (Some 1) (Grp 1 (seqs [Chr CHR ''-'', Rep 2 (Some 4) digit])), WordB]) False,
     newRegExp (seqs [WordB,
        Grp 1 (words [''jan'', ''feb'', ''mar'', ''apr'', ''may'', ''jun'', ''jul'', ''aug'',
                      ''sep'', ''oct'', ''nov'', ''dec'']),
        Rep 0 None lowerAZ, Chr CHR '' '', Rep 1 (Some 2) digit,
        Rep 0 (Some 1)
          (Grp 2 (seqs [Rep 0 (Some 1) (Chr CHR '',''), Chr CHR '' '', Rep 4 (Some 4) digit])),
        WordB]) True,
     newRegExp (seqs [WordB, lit ''this '', Grp 1 (words [''week'', ''month'', ''year'']),
        WordB]) True,
     newRegExp (seqs [WordB, lit ''next '',
        Grp 1 (words [''week'', ''month'', ''monday'', ''tuesday'', ''wednesday'', ''thursday'',
                      ''friday'']), WordB]) True]"

definition capitalized :: regex where
  "capitalized = Seq upperAZ (Rep 1 None lowerAZ)"

definition personPatternList :: "RegExp list" where
  "personPatternList =
    [newRegExp (seqs
        [alts [lit ''with'', lit ''by'',
               seqs [lit ''assign'', Rep 0 (Some 1) (lit ''ed''), lit '' to''],
               lit ''contact'', lit ''notify'', lit ''tell'', lit ''inform'', lit ''call''],
         Rep 1 None space,
         Grp 1 (Seq capitalized (Rep 0 (Some 1) (Seq (Rep 1 None space) capitalized)))]) False,
     newRegExp (Seq (Chr CHR ''@'') (Grp 1 (Rep 1 None wordChar))) False]"

definition locationPatternList :: "RegExp list" where
  "locationPatternList =
    [newRegExp (seqs
        [words [''at'', ''in'', ''to'', ''from'', ''room'', ''office'', ''building'', ''site''],
         Rep 1 None space,
         Grp 1 (Seq capitalized (Rep 0 None (Seq (Rep 1 None space) capitalized)))]) False,
     newRegExp (seqs
        [words [''room'', ''office'', ''building'', ''site''],
         Rep 1 None space,
         Grp 1 (Rep 1 None
           (Cls [(CHR ''A'', CHR ''Z''), (CHR ''a'', CHR ''z''), (CHR ''0'', CHR ''9'')]))]) True]"

definition actionVerbPatternList :: "RegExp list" where
  "actionVerbPatternList =
    [newRegExp (seqs [WordB,
        Grp 1 (words [''schedule'', ''create'', ''review'', ''complete'', ''send'', ''call'',
                      ''email'', ''update'', ''fix'', ''check'', ''prepare'', ''submit'',
                      ''approve'', ''cancel'', ''organize'', ''setup'', ''plan'', ''meet'',
                      ''discuss'', ''analyze'', ''implement'', ''deploy'']), WordB]) True]"

text \<open>
  The four pattern arrays are module constants holding mutable objects: the state of the
  module between calls is the state of these objects.
\<close>

record Module =
  datePatterns :: "RegExp list"
  personPatterns :: "RegExp list"
  locationPatterns :: "RegExp list"
  actionVerbPatterns :: "RegExp list"

definition initialModule :: Module where
  "initialModule =
    \<lparr> datePatterns = datePatternList,
      personPatterns = personPatternList,
      locationPatterns = locationPatternList,
      actionVerbPatterns = actionVerbPatternList \<rparr>"

section \<open>Entity extraction\<close>

text \<open>
  \<open>extractDates\<close> and \<open>extractActionVerbs\<close>: for each pattern of the array, \<open>text.match\<close>
  with the array's own object, and every match is added in lower case. The function
  returns the members of the set and the objects as \<open>match\<close> left them.
\<close>

definition addLowerCased :: "string list \<Rightarrow> string list option \<Rightarrow> string list" where
  "addLowerCased members matches =
     (case matches of
        None \<Rightarrow> members
      | Some ms \<Rightarrow> foldl (\<lambda>acc mt. setAdd acc (toLowerCase mt)) members ms)"

fun matchEach :: "RegExp list \<Rightarrow> string \<Rightarrow> string list \<Rightarrow> string list \<times> RegExp list" where
  "matchEach [] text members = (members, [])"
| "matchEach (pattern # patterns) text members =
     (let (matches, pattern') = stringMatch text pattern;
          (members', patterns') = matchEach patterns text (addLowerCased members matches)
      in (members', pattern' # patterns'))"

definition extractDates :: "RegExp list \<Rightarrow> string \<Rightarrow> string list \<times> RegExp list" where
  "extractDates patterns text = matchEach patterns text []"

definition extractActionVerbs :: "RegExp list \<Rightarrow> string \<Rightarrow> string list \<times> RegExp list" where
  "extractActionVerbs patterns text = matchEach patterns text []"

text \<open>
  \<open>extractPeople\<close> and \<open>extractLocations\<close>: for each pattern a fresh object is made from its
  source and flags, and \<open>exec\<close> runs on it until it returns \<open>null\<close>; a non-empty \<open>match[1]\<close>
  is trimmed and added. The loop does not advance \<open>lastIndex\<close> itself, so after a match
  that leaves \<open>lastIndex\<close> where it was the same match would be found again and again:
  \<open>None\<close> stands for this loop that never ends.
\<close>

function execLoop :: "RegExp \<Rightarrow> string \<Rightarrow> string list \<Rightarrow> string list option" where
  "execLoop regex text members =
     (case exec regex text of
        (None, regex') \<Rightarrow> Some members
      | (Some match, regex') \<Rightarrow>
          if lastIndex regex' = lastIndex regex then None
          else execLoop regex' text
                 (case groups match 1 of
                    None \<Rightarrow> members
                  | Some g \<Rightarrow> if g = [] then members else setAdd members (trim g)))"
  by pat_completeness auto
termination execLoop
proof (relation "measure (\<lambda>(regex, text, members). Suc (length text) - lastIndex regex)",
    goal_cases)
  case 1
  show ?case by simp
next
  case (2 regex S members x1 regex' result)
  from 2 have "exec regex S = (Some result, regex')" by simp
  from exec_lastIndex [OF this] 2(3) show ?case by auto
qed

declare execLoop.simps [simp del]

fun execEach :: "RegExp list \<Rightarrow> string \<Rightarrow> string list \<Rightarrow> string list option" where
  "execEach [] text members = Some members"
| "execEach (pattern # patterns) text members =
     (case execLoop (newRegExp (source pattern) (ignoreCase pattern)) text members of
        None \<Rightarrow> None
      | Some members' \<Rightarrow> execEach patterns text members')"

definition extractPeople :: "RegExp list \<Rightarrow> string \<Rightarrow> string list option" where
  "extractPeople patterns text = execEach patterns text []"

definition extractLocations :: "RegExp list \<Rightarrow> string \<Rightarrow> string list option" where
  "extractLocations patterns text = execEach patterns text []"

section \<open>The orchestrator\<close>

text \<open>
  \<open>classifyTask\<close> takes the module state and returns the result with the new state, or
  \<open>None\<close> when one of the extraction loops does not end.
\<close>

definition classifyTask :: "Module \<Rightarrow> string \<Rightarrow> string \<Rightarrow> (ClassificationResult \<times> Module) option" where
  "classifyTask md title description =
     (let fullText = title @ '' '' @ description;
          category = classifyCategory fullText;
          priority = classifyPriority fullText;
          (ds, datePatterns') = extractDates (datePatterns md) fullText
      in case extractPeople (personPatterns md) fullText of
           None \<Rightarrow> None
         | Some ps \<Rightarrow>
        (case extractLocations (locationPatterns md) fullText of
           None \<Rightarrow> None
         | Some ls \<Rightarrow>
             let (vs, actionVerbPatterns') = extractActionVerbs (actionVerbPatterns md) fullText
             in Some
                  (\<lparr> category = category,
                     priority = priority,
                     extracted_entities =
                       \<lparr> dates = ds, people = ps, locations = ls, actionVerbs = vs \<rparr>,
                     suggested_actions = suggestedActions category \<rparr>,
                   md\<lparr>datePatterns := datePatterns',
                      actionVerbPatterns := actionVerbPatterns'\<rparr>)))"

section \<open>States of the module\<close>

text \<open>
  Between calls the module can differ from its initial state only in the \<open>lastIndex\<close> of
  the objects that \<open>match\<close> is called on, the date and action-verb patterns; the person
  and location patterns are only read. \<open>moduleInv\<close> holds in exactly these states.
\<close>

definition atRest :: "RegExp \<Rightarrow> RegExp" where
  "atRest R = R\<lparr>lastIndex := 0\<rparr>"

definition moduleInv :: "Module \<Rightarrow> bool" where
  "moduleInv md \<longleftrightarrow>
     map atRest (datePatterns md) = datePatternList
   \<and> personPatterns md = personPatternList
   \<and> locationPatterns md = locationPatternList
   \<and> map atRest (actionVerbPatterns md) = actionVerbPatternList"

text \<open>
  A syntactic criterion for patterns every match of which consumes at least one code unit.
\<close>

fun consumes :: "regex \<Rightarrow> bool" where
  "consumes (Chr c) = True"
| "consumes (Cls rs) = True"
| "consumes Eps = False"
| "consumes (Seq r1 r2) = (consumes r1 \<or> consumes r2)"
| "consumes (Alt r1 r2) = (consumes r1 \<and> consumes r2)"
| "consumes (Rep mn mx r) = (0 < mn \<and> mx \<noteq> Some 0 \<and> consumes r)"
| "consumes (Grp n r) = consumes r"
| "consumes WordB = False"

section \<open>The pattern for \<open>next\<close> and a period\<close>

text \<open>
  The seventh date pattern, \<open>/\bnext (week|month|monday|...|friday)\b/gi\<close>, under a name.
  \<open>splitFree\<close> is an auxiliary check on a canonicalized match text: no \<open>N\<close> in it follows a
  code unit outside \<open>A\<close>..\<open>Z\<close>, so no second match of the pattern can start inside it after
  a word boundary.
\<close>

definition nextWords :: "string list" where
  "nextWords = [''week'', ''month'', ''monday'', ''tuesday'', ''wednesday'', ''thursday'', ''friday'']"

definition nextPattern :: regex where
  "nextPattern = seqs [WordB, lit ''next '', Grp 1 (words nextWords), WordB]"

fun splitFree :: "string \<Rightarrow> bool" where
  "splitFree (c # d # cs) =
     ((d = CHR ''N'' \<longrightarrow> inRanges [(CHR ''A'', CHR ''Z'')] c) \<and> splitFree (d # cs))"
| "splitFree _ = True"

section \<open>Substring containment\<close>

lemma includes_sublist: "includesStr t k \<longleftrightarrow> sublist k t"
  by (induction t) (auto simp: sublist_Cons_right)

lemma includes_iff: "includesStr t k \<longleftrightarrow> (\<exists>ps ss. t = ps @ k @ ss)"
  by (simp add: includes_sublist sublist_def)

lemma list_ex_includes:
  "list_ex (\<lambda>keyword. includesStr t keyword) ks \<longleftrightarrow> (\<exists>k \<in> set ks. sublist k t)"
  by (simp add: list_ex_iff includes_sublist)

section \<open>Properties of the category classifier\<close>

lemma foldl_count:
  "foldl (\<lambda>score keyword. if P keyword then score + 1 else score) (n::nat) ks
     = n + length (filter P ks)"
  by (induction ks arbitrary: n) auto

lemma keywordScore_filter:
  "keywordScore t ks = length (filter (\<lambda>k. sublist k t) ks)"
  by (simp add: keywordScore_def foldl_count includes_sublist)

lemma keywordScore_card:
  "distinct ks \<Longrightarrow> keywordScore t ks = card {k \<in> set ks. sublist k t}"
  using distinct_card [of "filter (\<lambda>k. sublist k t) ks"]
  by (simp add: keywordScore_filter)

lemma keywordScore_zero:
  "keywordScore t ks = 0 \<longleftrightarrow> (\<forall>k \<in> set ks. \<not> sublist k t)"
  by (simp add: keywordScore_filter filter_empty_conv)

lemma keywordsOf_simps:
  "keywordsOf Scheduling =
     [''meeting'', ''schedule'', ''call'', ''appointment'', ''deadline'', ''calendar'',
      ''event'', ''reminder'', ''agenda'']"
  "keywordsOf Finance =
     [''payment'', ''invoice'', ''bill'', ''budget'', ''cost'', ''expense'', ''money'',
      ''price'', ''financial'', ''revenue'']"
  "keywordsOf Technical =
     [''bug'', ''fix'', ''error'', ''install'', ''repair'', ''maintain'', ''update'',
      ''deploy'', ''code'', ''system'', ''server'']"
  "keywordsOf Safety =
     [''safety'', ''hazard'', ''inspection'', ''compliance'', ''ppe'', ''risk'',
      ''emergency'', ''warning'', ''secure'']"
  "keywordsOf General = []"
  by (simp_all add: keywordsOf_def categoryKeywords_def)

lemma keywordsOf_distinct: "distinct (keywordsOf c)"
  by (cases c) (simp_all add: keywordsOf_simps)

text \<open>The four iterations of the outer loop that do not skip, one after the other.\<close>

lemma classifyCategory_steps:
  "classifyCategory text =
     (let t = toLowerCase text;
          s1 = keywordScore t (keywordsOf Scheduling);
          s2 = keywordScore t (keywordsOf Finance);
          s3 = keywordScore t (keywordsOf Technical);
          s4 = keywordScore t (keywordsOf Safety);
          a1 = (if s1 > 0 then (s1, Scheduling) else (0, General));
          a2 = (if s2 > fst a1 then (s2, Finance) else a1);
          a3 = (if s3 > fst a2 then (s3, Technical) else a2);
          a4 = (if s4 > fst a3 then (s4, Safety) else a3)
      in snd a4)"
  by (simp add: classifyCategory_def categoryKeywords_def keywordsOf_simps Let_def)

text \<open>
  Claim C1. For every text, the score of a category is the number of distinct keywords
  of the category that occur as a substring of the lower-cased text. If every category
  of the order scheduling, finance, technical, safety scores 0, \<open>classifyCategory\<close> returns
  \<open>general\<close>. Otherwise it returns a category of that order whose score is the highest,
  and every category before it in the order has a strictly lower score: the first
  category to reach the highest score wins, and a later category with an equal score
  does not replace it.
\<close>

theorem classifyCategory_first_highest:
  "let t = toLowerCase text;
       score = (\<lambda>c. card {k \<in> set (keywordsOf c). sublist k t});
       order = [Scheduling, Finance, Technical, Safety];
       r = classifyCategory text
   in if \<forall>c \<in> set order. score c = 0 then r = General
      else r \<in> set order
         \<and> (\<forall>c \<in> set order. score c \<le> score r)
         \<and> (\<forall>c \<in> set (takeWhile (\<lambda>c. c \<noteq> r) order). score c < score r)"
proof -
  have sc: "card {k \<in> set (keywordsOf c). sublist k (toLowerCase text)}
      = keywordScore (toLowerCase text) (keywordsOf c)" for c
    by (simp add: keywordScore_card keywordsOf_distinct)
  show ?thesis
    unfolding Let_def sc classifyCategory_steps
    by (auto split: if_splits)
qed

text \<open>
  The theorem at "Call about the invoice budget": scheduling scores 1 (call), finance
  scores 2 (invoice, budget), the other two score 0, and the theorem leaves finance as
  the only possible result.
\<close>

theorem classifyCategory_first_highest_witness:
  "classifyCategory ''Call about the invoice budget'' = Finance
   \<and> card {k \<in> set (keywordsOf Scheduling).
             sublist k (toLowerCase ''Call about the invoice budget'')} = 1
   \<and> card {k \<in> set (keywordsOf Finance).
             sublist k (toLowerCase ''Call about the invoice budget'')} = 2"
proof -
  define sc where "sc = (\<lambda>c. card {k \<in> set (keywordsOf c).
     sublist k (toLowerCase ''Call about the invoice budget'')})"
  define r where "r = classifyCategory ''Call about the invoice budget''"
  have s1: "sc Scheduling = 1" unfolding sc_def by code_simp
  have s2: "sc Finance = 2" unfolding sc_def by code_simp
  have s3: "sc Technical = 0" unfolding sc_def by code_simp
  have s4: "sc Safety = 0" unfolding sc_def by code_simp
  have inst: "if \<forall>c \<in> set [Scheduling, Finance, Technical, Safety]. sc c = 0 then r = General
      else r \<in> set [Scheduling, Finance, Technical, Safety]
         \<and> (\<forall>c \<in> set [Scheduling, Finance, Technical, Safety]. sc c \<le> sc r)
         \<and> (\<forall>c \<in> set (takeWhile (\<lambda>c. c \<noteq> r) [Scheduling, Finance, Technical, Safety]).
               sc c < sc r)"
    using classifyCategory_first_highest [of "''Call about the invoice budget''"]
    unfolding Let_def sc_def r_def .
  from s2 have "(\<forall>c \<in> set [Scheduling, Finance, Technical, Safety]. sc c = 0) = False"
    by simp
  from inst [unfolded this if_False] have mem: "r \<in> set [Scheduling, Finance, Technical, Safety]"
    and le: "sc Finance \<le> sc r" by simp_all
  from mem le s1 s2 s3 s4 have "r = Finance" by auto
  with s1 s2 show ?thesis unfolding sc_def r_def by simp
qed

text \<open>
  Claim C4. For every text, \<open>classifyCategory\<close> returns \<open>general\<close> if and only if no keyword
  of scheduling, finance, technical or safety occurs as a substring of the lower-cased
  text.
\<close>

theorem classifyCategory_general_iff:
  "classifyCategory text = General \<longleftrightarrow>
     (\<forall>c \<in> {Scheduling, Finance, Technical, Safety}.
        \<forall>k \<in> set (keywordsOf c). \<not> sublist k (toLowerCase text))"
proof -
  have z: "(\<forall>k \<in> set (keywordsOf c). \<not> sublist k (toLowerCase text))
      \<longleftrightarrow> keywordScore (toLowerCase text) (keywordsOf c) = 0" for c
    by (simp add: keywordScore_zero)
  show ?thesis
    unfolding z classifyCategory_steps Let_def
    by (auto split: if_splits)
qed

text \<open>
  Both directions at concrete texts: "Buy milk" holds no keyword and is general; "Fix it"
  holds the technical keyword fix and is not.
\<close>

theorem classifyCategory_general_iff_witness:
  "classifyCategory ''Buy milk'' = General \<and> classifyCategory ''Fix it'' \<noteq> General"
proof -
  have none: "\<forall>c \<in> {Scheduling, Finance, Technical, Safety}.
      \<forall>k \<in> set (keywordsOf c). \<not> sublist k (toLowerCase ''Buy milk'')"
    by code_simp
  have hit: "sublist ''fix'' (toLowerCase ''Fix it'')" by code_simp
  have "''fix'' \<in> set (keywordsOf Technical)" by (simp add: keywordsOf_simps)
  with hit have some: "\<not> (\<forall>c \<in> {Scheduling, Finance, Technical, Safety}.
      \<forall>k \<in> set (keywordsOf c). \<not> sublist k (toLowerCase ''Fix it''))"
    by blast
  from none some classifyCategory_general_iff [of "''Buy milk''"]
    classifyCategory_general_iff [of "''Fix it''"]
  show ?thesis by blast
qed

section \<open>Properties of the priority classifier\<close>

text \<open>
  Claim C2. For every text, \<open>classifyPriority\<close> returns \<open>high\<close> if some high keyword is a
  substring of the lower-cased text; otherwise \<open>medium\<close> if some medium keyword is;
  otherwise \<open>low\<close>. The low keyword list is not consulted: replacing it by any list
  leaves the result as it is.
\<close>

theorem classifyPriority_precedence:
  "classifyPriority text =
     (if \<exists>k \<in> set (high priorityKeywords). sublist k (toLowerCase text) then High
      else if \<exists>k \<in> set (medium priorityKeywords). sublist k (toLowerCase text) then Medium
      else Low)
   \<and> (\<forall>lows. classifyPriorityWith (priorityKeywords\<lparr>low := lows\<rparr>) text
               = classifyPriority text)"
  by (simp add: classifyPriority_def classifyPriorityWith_def list_ex_includes Let_def)

text \<open>"Send the report soon" holds no high keyword and the medium keyword soon.\<close>

theorem classifyPriority_precedence_witness:
  "classifyPriority ''Send the report soon'' = Medium
   \<and> classifyPriorityWith (priorityKeywords\<lparr>low := [''soon'']\<rparr>) ''Send the report soon''
       = Medium"
proof -
  have h: "(\<exists>k \<in> set (high priorityKeywords).
      sublist k (toLowerCase ''Send the report soon'')) = False"
    by code_simp
  have m: "(\<exists>k \<in> set (medium priorityKeywords).
      sublist k (toLowerCase ''Send the report soon'')) = True"
    by code_simp
  from classifyPriority_precedence [of "''Send the report soon''", unfolded h m]
  show ?thesis by simp
qed

text \<open>
  Claim C9. "important" is both a high and a medium keyword. For every text whose
  lower-cased form contains "important", \<open>classifyPriority\<close> returns \<open>high\<close>, not \<open>medium\<close>.
  The medium entry never decides: without it in the medium list the result is the same
  for every text.
\<close>

theorem important_is_high:
  "(sublist ''important'' (toLowerCase text) \<longrightarrow>
      classifyPriority text = High \<and> classifyPriority text \<noteq> Medium)
   \<and> ''important'' \<in> set (high priorityKeywords)
   \<and> ''important'' \<in> set (medium priorityKeywords)
   \<and> classifyPriorityWith
        (priorityKeywords\<lparr>medium := removeAll ''important'' (medium priorityKeywords)\<rparr>) text
      = classifyPriority text"
proof -
  have hi: "''important'' \<in> set (high priorityKeywords)"
    by (simp add: priorityKeywords_def)
  have me: "''important'' \<in> set (medium priorityKeywords)"
    by (simp add: priorityKeywords_def)
  have a: "sublist ''important'' (toLowerCase text) \<longrightarrow>
      classifyPriority text = High \<and> classifyPriority text \<noteq> Medium"
    using hi by (auto simp: classifyPriority_def classifyPriorityWith_def list_ex_includes Let_def)
  have b: "classifyPriorityWith
        (priorityKeywords\<lparr>medium := removeAll ''important'' (medium priorityKeywords)\<rparr>) text
      = classifyPriority text"
    using hi by (auto simp: classifyPriority_def classifyPriorityWith_def list_ex_includes Let_def)
  from hi me a b show ?thesis by blast
qed

theorem important_is_high_witness:
  "sublist ''important'' (toLowerCase ''An Important note'')
   \<and> classifyPriority ''An Important note'' = High"
proof -
  have w: "sublist ''important'' (toLowerCase ''An Important note'')" by code_simp
  with important_is_high [of "''An Important note''"] show ?thesis by blast
qed

text \<open>
  Claim C10. For every text whose lower-cased form contains "low priority",
  \<open>classifyPriority\<close> returns \<open>high\<close>, because the text then contains the high keyword
  "priority". The low keyword list is never read: replacing it by any list leaves the
  result as it is, and the result is \<open>low\<close> exactly when no high and no medium keyword
  occurs, whatever the low list holds.
\<close>

theorem low_priority_is_high:
  "(sublist ''low priority'' (toLowerCase text) \<longrightarrow> classifyPriority text = High)
   \<and> (\<forall>lows. classifyPriorityWith (priorityKeywords\<lparr>low := lows\<rparr>) text
               = classifyPriority text)
   \<and> (classifyPriority text = Low \<longleftrightarrow>
        \<not> (\<exists>k \<in> set (high priorityKeywords @ medium priorityKeywords).
              sublist k (toLowerCase text)))"
proof -
  have hi: "''priority'' \<in> set (high priorityKeywords)"
    by (simp add: priorityKeywords_def)
  have inner: "sublist ''priority'' ''low priority''"
    by code_simp
  have "sublist ''priority'' (toLowerCase text)" if "sublist ''low priority'' (toLowerCase text)"
    using inner that by (rule sublist_order.order_trans)
  with hi have a: "sublist ''low priority'' (toLowerCase text) \<longrightarrow> classifyPriority text = High"
    by (auto simp: classifyPriority_def classifyPriorityWith_def list_ex_includes Let_def)
  have b: "\<forall>lows. classifyPriorityWith (priorityKeywords\<lparr>low := lows\<rparr>) text
      = classifyPriority text"
    by (simp add: classifyPriority_def classifyPriorityWith_def Let_def)
  have c: "classifyPriority text = Low \<longleftrightarrow>
        \<not> (\<exists>k \<in> set (high priorityKeywords @ medium priorityKeywords).
              sublist k (toLowerCase text))"
    by (auto simp: classifyPriority_def classifyPriorityWith_def list_ex_includes Let_def)
  from a b c show ?thesis by blast
qed

theorem low_priority_is_high_witness:
  "sublist ''low priority'' (toLowerCase ''This is Low Priority'')
   \<and> classifyPriority ''This is Low Priority'' = High"
proof -
  have w: "sublist ''low priority'' (toLowerCase ''This is Low Priority'')" by code_simp
  with low_priority_is_high [of "''This is Low Priority''"] show ?thesis by blast
qed

section \<open>Properties of the matcher\<close>

text \<open>
  The class test of the matcher agrees with the definition through \<open>Canonicalize\<close>: a
  class matches a code unit exactly when one of its members has the same canonical form.
\<close>

lemma of_char_toUpperCU:
  "(of_char (toUpperCU c) :: nat) =
     (let n = of_char c
      in if (97 \<le> n \<and> n \<le> 122) \<or> (224 \<le> n \<and> n \<le> 254 \<and> n \<noteq> 247) then n - 32 else n)"
proof -
  have "(of_char c :: nat) < 256" by simp
  then show ?thesis by (auto simp: toUpperCU_def Let_def)
qed

lemma of_char_toLowerCU:
  "(of_char (toLowerCU c) :: nat) =
     (let n = of_char c
      in if (65 \<le> n \<and> n \<le> 90) \<or> (192 \<le> n \<and> n \<le> 222 \<and> n \<noteq> 215) then n + 32 else n)"
proof -
  have "(of_char c :: nat) < 256" by simp
  then show ?thesis by (auto simp: toLowerCU_def Let_def)
qed

lemma canonical_class:
  "toUpperCU a = toUpperCU ch \<longleftrightarrow> a = ch \<or> a = toUpperCU ch \<or> a = toLowerCU ch"
proof -
  have e: "x = y \<longleftrightarrow> (of_char x :: nat) = of_char y" for x y by simp
  show ?thesis
    unfolding e of_char_toUpperCU of_char_toLowerCU Let_def
    by (auto simp del: of_char_eq_iff split: if_splits)
qed

lemma classMatches_canonical:
  "classMatches ic rs ch \<longleftrightarrow> (\<exists>a. inRanges rs a \<and> canonicalize ic a = canonicalize ic ch)"
proof (cases ic)
  case True
  have "(\<exists>a. inRanges rs a \<and> toUpperCU a = toUpperCU ch)
      \<longleftrightarrow> inRanges rs ch \<or> inRanges rs (toUpperCU ch) \<or> inRanges rs (toLowerCU ch)"
    unfolding canonical_class by blast
  with True show ?thesis by (simp add: classMatches_def canonicalize_def)
next
  case False
  then show ?thesis by (simp add: classMatches_def canonicalize_def)
qed

lemma set_if: "set (if c then a else b) = (if c then set a else set b)"
  by (cases c) simp_all

lemma set_case_list:
  "set (case xs of [] \<Rightarrow> a | y # ys \<Rightarrow> f y ys) = (case xs of [] \<Rightarrow> set a | y # ys \<Rightarrow> set (f y ys))"
  by (cases xs) simp_all

lemma matcher_Chr_elim:
  "y \<in> set (matcher ic (Chr c) x) \<Longrightarrow>
     \<exists>ch. rest x = ch # rest y \<and> canonicalize ic ch = canonicalize ic c
        \<and> prev y = Some ch \<and> captures y = captures x"
  by (auto simp: matcher.simps set_if set_case_list split: list.splits if_splits)

lemma matcher_Cls_elim:
  "y \<in> set (matcher ic (Cls rs) x) \<Longrightarrow>
     \<exists>ch. rest x = ch # rest y \<and> classMatches ic rs ch
        \<and> prev y = Some ch \<and> captures y = captures x"
  by (auto simp: matcher.simps set_if set_case_list split: list.splits if_splits)

lemma matcher_Seq_elim:
  "y \<in> set (matcher ic (Seq r1 r2) x) \<Longrightarrow>
     \<exists>x1 \<in> set (matcher ic r1 x). y \<in> set (matcher ic r2 x1)"
  by (auto simp: matcher.simps)

lemma matcher_Alt_elim:
  "y \<in> set (matcher ic (Alt r1 r2) x) \<Longrightarrow>
     y \<in> set (matcher ic r1 x) \<or> y \<in> set (matcher ic r2 x)"
  by (auto simp: matcher.simps)

lemma matcher_Grp_elim:
  "y \<in> set (matcher ic (Grp n r) x) \<Longrightarrow>
     \<exists>y' \<in> set (matcher ic r x). rest y = rest y' \<and> prev y = prev y'"
  by (auto simp: matcher.simps)

lemma matcher_WordB_elim:
  "y \<in> set (matcher ic WordB x) \<Longrightarrow>
     y = x \<and> (case prev x of None \<Rightarrow> False | Some c \<Rightarrow> isWordChar c)
           \<noteq> (case rest x of [] \<Rightarrow> False | c # _ \<Rightarrow> isWordChar c)"
  by (simp add: matcher.simps Let_def set_if split: if_splits)

lemma matcher_Rep_elim:
  "y \<in> set (matcher ic (Rep mn mx r) x) \<Longrightarrow>
     (y = x \<and> (mx = Some 0 \<or> mn = 0))
     \<or> (mx \<noteq> Some 0
        \<and> (\<exists>x1 \<in> set (matcher ic r
               (x\<lparr>captures := (\<lambda>k. if k \<in> set (groupsOf r) then None else captures x k)\<rparr>)).
              \<not> (mn = 0 \<and> length (rest x) \<le> length (rest x1))
              \<and> y \<in> set (matcher ic (Rep (mn - 1) (map_option (\<lambda>k. k - 1) mx) r) x1)))"
  by (subst (asm) matcher.simps(8)) (auto simp: set_if split: if_splits)

lemma matcher_length_le:
  "y \<in> set (matcher ic r x) \<Longrightarrow> length (rest y) \<le> length (rest x)"
proof (induction ic r x arbitrary: y rule: matcher.induct)
  case (1 ic c x)
  from matcher_Chr_elim [OF "1.prems"] show ?case by auto
next
  case (2 ic rs x)
  from matcher_Cls_elim [OF "2.prems"] show ?case by auto
next
  case (3 ic x)
  then show ?case by (simp add: matcher.simps)
next
  case (4 ic r1 r2 x)
  from matcher_Seq_elim [OF "4.prems"]
  obtain x1 where a: "x1 \<in> set (matcher ic r1 x)" and b: "y \<in> set (matcher ic r2 x1)"
    by blast
  from "4.IH"(1) [OF a] "4.IH"(2) [OF a b] show ?case by simp
next
  case (5 ic r1 r2 x)
  from matcher_Alt_elim [OF "5.prems"] "5.IH" show ?case by blast
next
  case (6 ic n r x)
  from matcher_Grp_elim [OF "6.prems"] "6.IH" show ?case by auto
next
  case (7 ic x)
  from matcher_WordB_elim [OF "7.prems"] show ?case by simp
next
  case (8 ic mn mx r x)
  let ?x0 = "x\<lparr>captures := (\<lambda>k. if k \<in> set (groupsOf r) then None else captures x k)\<rparr>"
  from matcher_Rep_elim [OF "8.prems"]
  consider (stop) "y = x"
    | (iter) x1 where "mx \<noteq> Some 0" "x1 \<in> set (matcher ic r ?x0)"
        "\<not> (mn = 0 \<and> length (rest x) \<le> length (rest x1))"
        "y \<in> set (matcher ic (Rep (mn - 1) (map_option (\<lambda>k. k - 1) mx) r) x1)"
    by blast
  then show ?case
  proof cases
    case stop
    then show ?thesis by simp
  next
    case iter
    from "8.IH"(1) [OF iter(1) iter(2)] "8.IH"(2) [OF iter(1) iter(2) iter(3) iter(4)]
    show ?thesis by simp
  qed
qed

lemma matcher_consumes:
  "consumes r \<Longrightarrow> y \<in> set (matcher ic r x) \<Longrightarrow> length (rest y) < length (rest x)"
proof (induction r arbitrary: x y)
  case (Chr c)
  from matcher_Chr_elim [OF Chr.prems(2)] show ?case by auto
next
  case (Cls rs)
  from matcher_Cls_elim [OF Cls.prems(2)] show ?case by auto
next
  case Eps
  then show ?case by simp
next
  case (Seq r1 r2)
  from matcher_Seq_elim [OF Seq.prems(2)]
  obtain x1 where a: "x1 \<in> set (matcher ic r1 x)" and b: "y \<in> set (matcher ic r2 x1)"
    by blast
  from Seq.prems(1) consider "consumes r1" | "consumes r2" by auto
  then show ?case
  proof cases
    case 1
    from Seq.IH(1) [OF 1 a] matcher_length_le [OF b] show ?thesis by simp
  next
    case 2
    from Seq.IH(2) [OF 2 b] matcher_length_le [OF a] show ?thesis by simp
  qed
next
  case (Alt r1 r2)
  from matcher_Alt_elim [OF Alt.prems(2)] Alt.IH Alt.prems(1) show ?case by auto
next
  case (Rep mn mx r)
  let ?x0 = "x\<lparr>captures := (\<lambda>k. if k \<in> set (groupsOf r) then None else captures x k)\<rparr>"
  from Rep.prems(1) have mn: "0 < mn" and mx: "mx \<noteq> Some 0" and c: "consumes r" by simp_all
  from matcher_Rep_elim [OF Rep.prems(2)] mn mx
  obtain x1 where a: "x1 \<in> set (matcher ic r ?x0)"
    and b: "y \<in> set (matcher ic (Rep (mn - 1) (map_option (\<lambda>k. k - 1) mx) r) x1)"
    by auto
  from Rep.IH [OF c a] matcher_length_le [OF b] show ?case by simp
next
  case (Grp n r)
  from matcher_Grp_elim [OF Grp.prems(2)] Grp.IH Grp.prems(1) show ?case by auto
next
  case WordB
  then show ?case by simp
qed

lemma searchFrom_matcher:
  "searchFrom R S i = Some (j, y) \<Longrightarrow>
     \<exists>ys. matcher (ignoreCase R) (source R) (stateAt S j) = y # ys"
proof (induction R S i rule: searchFrom.induct)
  case (1 R S i)
  show ?case
  proof (cases "matcher (ignoreCase R) (source R) (stateAt S i)")
    case Nil
    with "1.prems" have le: "\<not> length S < i" and step: "searchFrom R S (i + 1) = Some (j, y)"
      by (auto simp: searchFrom.simps [of R S i] split: if_splits)
    from "1.IH" [OF le Nil step] show ?thesis .
  next
    case (Cons z zs)
    with "1.prems" show ?thesis
      by (auto simp: searchFrom.simps [of R S i] split: if_splits)
  qed
qed

lemma exec_fields:
  "exec R S = (res, R') \<Longrightarrow> source R' = source R \<and> ignoreCase R' = ignoreCase R"
  by (auto simp: exec_def Let_def split: option.splits)

lemma exec_progress:
  assumes "exec R S = (Some result, R')" and "consumes (source R)"
  shows "lastIndex R < lastIndex R'"
proof -
  from assms(1) obtain i y where s: "searchFrom R S (lastIndex R) = Some (i, y)"
    by (auto simp: exec_def split: option.splits)
  from searchFrom_bounds [OF s] have b: "lastIndex R \<le> i" "i \<le> length S" by simp_all
  from searchFrom_matcher [OF s] have "y \<in> set (matcher (ignoreCase R) (source R) (stateAt S i))"
    by auto
  from matcher_consumes [OF assms(2) this] have "length (rest y) < length (drop i S)"
    by (simp add: stateAt_def)
  moreover from assms(1) s
  have "lastIndex R' = i + (length (drop i S) - length (rest y))"
    by (auto simp: exec_def Let_def)
  ultimately show ?thesis using b by simp
qed

lemma execLoop_total:
  "consumes (source regex) \<Longrightarrow> \<exists>ms. execLoop regex S members = Some ms"
proof (induction regex S members rule: execLoop.induct)
  case (1 regex S members)
  obtain res regex' where e: "exec regex S = (res, regex')" by (cases "exec regex S")
  show ?case
  proof (cases res)
    case None
    with e show ?thesis by (subst execLoop.simps) simp
  next
    case (Some result)
    from exec_progress [OF e [unfolded Some] "1.prems"] have ne: "lastIndex regex' \<noteq> lastIndex regex"
      by simp
    from exec_fields [OF e] "1.prems" have c: "consumes (source regex')" by simp
    from "1.IH" [OF e [unfolded Some, symmetric] refl ne c] e Some ne
    show ?thesis by (subst execLoop.simps) simp
  qed
qed

lemma execEach_total:
  "\<forall>p \<in> set ps. consumes (source p) \<Longrightarrow> \<exists>ms. execEach ps S members = Some ms"
proof (induction ps arbitrary: members)
  case Nil
  show ?case by simp
next
  case (Cons p ps)
  from Cons.prems have "consumes (source (newRegExp (source p) (ignoreCase p)))"
    by (simp add: newRegExp_def)
  from execLoop_total [OF this]
  obtain ms where "execLoop (newRegExp (source p) (ignoreCase p)) S members = Some ms" by blast
  with Cons.IH [of ms] Cons.prems show ?case by simp
qed

lemma personPatterns_consume: "\<forall>p \<in> set personPatternList. consumes (source p)"
proof -
  have "list_all (\<lambda>p. consumes (source p)) personPatternList" by code_simp
  then show ?thesis by (simp add: list_all_iff)
qed

lemma locationPatterns_consume: "\<forall>p \<in> set locationPatternList. consumes (source p)"
proof -
  have "list_all (\<lambda>p. consumes (source p)) locationPatternList" by code_simp
  then show ?thesis by (simp add: list_all_iff)
qed

section \<open>The module state across calls\<close>

lemma exec_atRest: "exec R S = (res, R') \<Longrightarrow> atRest R' = atRest R"
  by (auto simp: exec_def atRest_def Let_def split: option.splits)

lemma exec_of_atRest:
  "exec (R\<lparr>lastIndex := k\<rparr>) S = (res, R') \<Longrightarrow> atRest R' = atRest R"
  using exec_atRest [of "R\<lparr>lastIndex := k\<rparr>" S res R'] by (simp add: atRest_def)

lemma matchLoop_snd: "snd (matchLoop rx S A) = atRest rx"
proof (induction rx S A rule: matchLoop.induct)
  case (1 rx S A)
  obtain res rx' where e: "exec rx S = (res, rx')" by (cases "exec rx S")
  show ?case
  proof (cases res)
    case None
    with e have "rx' = atRest rx" by (auto simp: exec_def atRest_def Let_def split: option.splits)
    with e None show ?thesis by (simp add: matchLoop.simps [of rx S A])
  next
    case (Some result)
    let ?rx'' = "if matched result = [] then rx'\<lparr>lastIndex := lastIndex rx' + 1\<rparr> else rx'"
    from "1.IH" [OF e [unfolded Some, symmetric] refl refl]
    have "snd (matchLoop ?rx'' S (A @ [matched result])) = atRest ?rx''" .
    moreover from exec_atRest [OF e] have "atRest ?rx'' = atRest rx" by (simp add: atRest_def)
    ultimately show ?thesis using e Some by (simp add: matchLoop.simps [of rx S A] Let_def)
  qed
qed

lemma stringMatch_atRest: "stringMatch S (atRest rx) = stringMatch S rx"
  by (simp add: stringMatch_def atRest_def)

lemma stringMatch_snd: "snd (stringMatch S rx) = atRest rx"
  using matchLoop_snd [of "rx\<lparr>lastIndex := 0\<rparr>" S "[]"]
  by (simp add: stringMatch_def atRest_def split_beta)

lemma matchEach_atRest: "matchEach (map atRest ps) S ms = matchEach ps S ms"
  by (induction ps arbitrary: ms) (simp_all add: stringMatch_atRest)

lemma matchEach_snd: "snd (matchEach ps S ms) = map atRest ps"
proof (induction ps arbitrary: ms)
  case Nil
  show ?case by simp
next
  case (Cons p ps)
  from Cons.IH stringMatch_snd [of S p] show ?case
    by (simp add: split_beta)
qed

lemma datePatternList_atRest: "map atRest datePatternList = datePatternList"
  by (simp add: datePatternList_def atRest_def newRegExp_def)

lemma actionVerbPatternList_atRest: "map atRest actionVerbPatternList = actionVerbPatternList"
  by (simp add: actionVerbPatternList_def atRest_def newRegExp_def)

lemma moduleInv_initial: "moduleInv initialModule"
  by (simp add: moduleInv_def initialModule_def datePatternList_atRest
      actionVerbPatternList_atRest)

lemma extractDates_inv:
  "map atRest ps = datePatternList \<Longrightarrow>
     extractDates ps S = (fst (extractDates datePatternList S), datePatternList)"
proof -
  assume a: "map atRest ps = datePatternList"
  have "matchEach ps S [] = matchEach datePatternList S []"
    using matchEach_atRest [of ps S "[]"] a by simp
  moreover have "snd (matchEach ps S []) = datePatternList"
    using matchEach_snd [of ps S "[]"] a by simp
  ultimately show ?thesis by (simp add: extractDates_def prod_eq_iff)
qed

lemma extractActionVerbs_inv:
  "map atRest ps = actionVerbPatternList \<Longrightarrow>
     extractActionVerbs ps S
       = (fst (extractActionVerbs actionVerbPatternList S), actionVerbPatternList)"
proof -
  assume a: "map atRest ps = actionVerbPatternList"
  have "matchEach ps S [] = matchEach actionVerbPatternList S []"
    using matchEach_atRest [of ps S "[]"] a by simp
  moreover have "snd (matchEach ps S []) = actionVerbPatternList"
    using matchEach_snd [of ps S "[]"] a by simp
  ultimately show ?thesis by (simp add: extractActionVerbs_def prod_eq_iff)
qed

lemma extractPeople_total: "\<exists>ps. extractPeople personPatternList text = Some ps"
  unfolding extractPeople_def by (rule execEach_total [OF personPatterns_consume])

lemma extractLocations_total: "\<exists>ls. extractLocations locationPatternList text = Some ls"
  unfolding extractLocations_def by (rule execEach_total [OF locationPatterns_consume])

lemma classifyTask_result:
  assumes "moduleInv md"
  shows "\<exists>ps ls.
      extractPeople (personPatterns md) (title @ '' '' @ description) = Some ps
    \<and> extractLocations (locationPatterns md) (title @ '' '' @ description) = Some ls
    \<and> classifyTask md title description =
        Some (\<lparr> category = classifyCategory (title @ '' '' @ description),
                 priority = classifyPriority (title @ '' '' @ description),
                 extracted_entities =
                   \<lparr> dates = fst (extractDates datePatternList (title @ '' '' @ description)),
                     people = ps, locations = ls,
                     actionVerbs =
                       fst (extractActionVerbs actionVerbPatternList (title @ '' '' @ description)) \<rparr>,
                 suggested_actions =
                   suggestedActions (classifyCategory (title @ '' '' @ description)) \<rparr>,
              initialModule)"
proof -
  let ?text = "title @ '' '' @ description"
  from assms have d: "map atRest (datePatterns md) = datePatternList"
    and p: "personPatterns md = personPatternList"
    and l: "locationPatterns md = locationPatternList"
    and v: "map atRest (actionVerbPatterns md) = actionVerbPatternList"
    by (simp_all add: moduleInv_def)
  from extractPeople_total obtain ps where ps: "extractPeople personPatternList ?text = Some ps"
    by blast
  from extractLocations_total obtain ls where ls: "extractLocations locationPatternList ?text = Some ls"
    by blast
  have md: "md\<lparr>datePatterns := datePatternList, actionVerbPatterns := actionVerbPatternList\<rparr>
      = initialModule"
    using p l by (simp add: initialModule_def)
  from ps ls p l md show ?thesis
    by (simp add: classifyTask_def Let_def extractDates_inv [OF d] extractActionVerbs_inv [OF v])
qed

lemma classifyTask_any_state:
  assumes "moduleInv md"
  shows "classifyTask md title description = classifyTask initialModule title description"
proof -
  from assms have pl: "personPatterns md = personPatterns initialModule"
    "locationPatterns md = locationPatterns initialModule"
    by (simp_all add: moduleInv_def initialModule_def)
  from classifyTask_result [OF assms, of title description]
    classifyTask_result [OF moduleInv_initial, of title description]
  show ?thesis unfolding pl by auto
qed

lemma classifyTask_returns:
  "\<exists>r. classifyTask initialModule title description = Some (r, initialModule)"
  using classifyTask_result [OF moduleInv_initial, of title description] by auto

lemma moduleInv_shifted:
  "moduleInv (initialModule\<lparr>datePatterns := map (\<lambda>R. R\<lparr>lastIndex := 5\<rparr>) datePatternList\<rparr>)"
proof -
  have "map atRest (map (\<lambda>R. R\<lparr>lastIndex := 5\<rparr>) datePatternList) = map atRest datePatternList"
    by (simp add: atRest_def)
  with moduleInv_initial show ?thesis
    by (simp add: moduleInv_def initialModule_def datePatternList_atRest)
qed

section \<open>Properties of the orchestrator\<close>

text \<open>
  Claim C3. In every state of the module, for every title and description,
  \<open>classifyTask\<close> builds the text as the title, one space and the description, in
  their original case; the two extraction loops over \<open>exec\<close> end; and the call returns
  exactly the record of \<open>classifyCategory\<close> of the text, \<open>classifyPriority\<close> of the text,
  the results of the four extractors on the text, and the suggested actions of that
  category.
\<close>

theorem classifyTask_assembles:
  assumes "moduleInv md"
  shows "let fullText = title @ '' '' @ description
         in \<exists>ps ls md'.
              extractPeople (personPatterns md) fullText = Some ps
            \<and> extractLocations (locationPatterns md) fullText = Some ls
            \<and> classifyTask md title description =
                Some (\<lparr> category = classifyCategory fullText,
                         priority = classifyPriority fullText,
                         extracted_entities =
                           \<lparr> dates = fst (extractDates (datePatterns md) fullText),
                             people = ps,
                             locations = ls,
                             actionVerbs =
                               fst (extractActionVerbs (actionVerbPatterns md) fullText) \<rparr>,
                         suggested_actions = suggestedActions (classifyCategory fullText) \<rparr>,
                      md')"
proof -
  from assms have d: "map atRest (datePatterns md) = datePatternList"
    and v: "map atRest (actionVerbPatterns md) = actionVerbPatternList"
    by (simp_all add: moduleInv_def)
  from classifyTask_result [OF assms, of title description] show ?thesis
    unfolding Let_def by (auto simp: extractDates_inv [OF d] extractActionVerbs_inv [OF v])
qed

theorem classifyTask_assembles_witness:
  "moduleInv initialModule
   \<and> map_option fst (classifyTask initialModule ''Fix'' '''') =
       Some \<lparr> category = Technical, priority = Low,
              extracted_entities =
                \<lparr> dates = [], people = [], locations = [], actionVerbs = [''fix''] \<rparr>,
              suggested_actions = suggestedActions Technical \<rparr>"
proof -
  have c: "classifyCategory (''Fix'' @ '' '' @ '''') = Technical" by code_simp
  have p: "classifyPriority (''Fix'' @ '' '' @ '''') = Low" by code_simp
  have d: "fst (extractDates (datePatterns initialModule) (''Fix'' @ '' '' @ '''')) = []"
    by code_simp
  have v: "fst (extractActionVerbs (actionVerbPatterns initialModule) (''Fix'' @ '' '' @ ''''))
      = [''fix'']" by code_simp
  have pe: "extractPeople (personPatterns initialModule) (''Fix'' @ '' '' @ '''') = Some []"
    by code_simp
  have lo: "extractLocations (locationPatterns initialModule) (''Fix'' @ '' '' @ '''') = Some []"
    by code_simp
  from classifyTask_assembles [OF moduleInv_initial, of "''Fix''" "''''"]
  have "\<exists>md'. classifyTask initialModule ''Fix'' '''' =
      Some (\<lparr> category = Technical, priority = Low,
              extracted_entities =
                \<lparr> dates = [], people = [], locations = [], actionVerbs = [''fix''] \<rparr>,
              suggested_actions = suggestedActions Technical \<rparr>, md')"
    unfolding Let_def c p d v pe lo by simp
  with moduleInv_initial show ?thesis by auto
qed

text \<open>
  Claim C5. In every state of the module, \<open>classifyTask\<close> returns, and the
  \<open>suggested_actions\<close> of its result is the fixed list of the table for the resulting
  category; two inputs that classify to the same category receive the same list,
  whatever their text.
\<close>

theorem suggested_actions_by_category:
  assumes "moduleInv md1" and "moduleInv md2"
  shows "\<exists>r1 r2 m1 m2.
      classifyTask md1 title1 description1 = Some (r1, m1)
    \<and> classifyTask md2 title2 description2 = Some (r2, m2)
    \<and> suggested_actions r1 = suggestedActions (category r1)
    \<and> suggested_actions r2 = suggestedActions (category r2)
    \<and> (category r1 = category r2 \<longrightarrow> suggested_actions r1 = suggested_actions r2)"
proof -
  from classifyTask_result [OF assms(1), of title1 description1]
  obtain r1 where 1: "classifyTask md1 title1 description1 = Some (r1, initialModule)"
    and a1: "suggested_actions r1 = suggestedActions (category r1)"
    by auto
  from classifyTask_result [OF assms(2), of title2 description2]
  obtain r2 where 2: "classifyTask md2 title2 description2 = Some (r2, initialModule)"
    and a2: "suggested_actions r2 = suggestedActions (category r2)"
    by auto
  from 1 2 a1 a2 show ?thesis by auto
qed

theorem suggested_actions_by_category_witness:
  "\<exists>r1 r2 m1 m2.
      classifyTask initialModule ''Fix'' '''' = Some (r1, m1)
    \<and> classifyTask initialModule ''Bug'' '''' = Some (r2, m2)
    \<and> category r1 = Technical
    \<and> category r2 = Technical
    \<and> suggested_actions r1 = suggestedActions Technical
    \<and> suggested_actions r1 = suggested_actions r2"
proof -
  have c1: "map_option (category \<circ> fst) (classifyTask initialModule ''Fix'' '''') = Some Technical"
    by code_simp
  have c2: "map_option (category \<circ> fst) (classifyTask initialModule ''Bug'' '''') = Some Technical"
    by code_simp
  from suggested_actions_by_category [OF moduleInv_initial moduleInv_initial,
      of "''Fix''" "''''" "''Bug''" "''''"]
  obtain r1 r2 m1 m2 where
    1: "classifyTask initialModule ''Fix'' '''' = Some (r1, m1)"
    and 2: "classifyTask initialModule ''Bug'' '''' = Some (r2, m2)"
    and a1: "suggested_actions r1 = suggestedActions (category r1)"
    and a12: "category r1 = category r2 \<longrightarrow> suggested_actions r1 = suggested_actions r2"
    by blast
  from c1 1 have k1: "category r1 = Technical" by simp
  from c2 2 have k2: "category r2 = Technical" by simp
  from 1 2 k1 k2 a1 a12 show ?thesis by auto
qed

text \<open>
  Claim C6. \<open>classifyTask\<close> is deterministic: from any two states of the module the same
  title and description give the same result record, hence the same category, priority,
  entity lists in the same order and suggested actions; and a second call in the state
  the first call left gives that result again.
\<close>

theorem classifyTask_deterministic:
  assumes "moduleInv md1" and "moduleInv md2"
  shows "\<exists>r m1 m2.
      classifyTask md1 title description = Some (r, m1)
    \<and> classifyTask md2 title description = Some (r, m2)
    \<and> moduleInv m1
    \<and> classifyTask m1 title description = Some (r, m1)"
proof -
  from classifyTask_returns
  obtain r where 0: "classifyTask initialModule title description = Some (r, initialModule)"
    by blast
  from 0 classifyTask_any_state [OF assms(1)] classifyTask_any_state [OF assms(2)]
    moduleInv_initial
  show ?thesis by auto
qed

theorem classifyTask_deterministic_witness:
  "\<exists>r m1 m2.
      classifyTask initialModule ''Fix'' ''bug'' = Some (r, m1)
    \<and> classifyTask
        (initialModule\<lparr>datePatterns := map (\<lambda>R. R\<lparr>lastIndex := 5\<rparr>) datePatternList\<rparr>)
        ''Fix'' ''bug'' = Some (r, m2)
    \<and> moduleInv m1
    \<and> classifyTask m1 ''Fix'' ''bug'' = Some (r, m1)"
  using classifyTask_deterministic [OF moduleInv_initial moduleInv_shifted] .

text \<open>
  Claim C7. In every state of the module, \<open>classifyTask\<close> of an empty title and an empty
  description returns category \<open>general\<close>, priority \<open>low\<close> and four empty entity lists.
\<close>

theorem classifyTask_empty:
  assumes "moduleInv md"
  shows "\<exists>r md'.
      classifyTask md [] [] = Some (r, md')
    \<and> category r = General
    \<and> priority r = Low
    \<and> dates (extracted_entities r) = []
    \<and> people (extracted_entities r) = []
    \<and> locations (extracted_entities r) = []
    \<and> actionVerbs (extracted_entities r) = []"
proof -
  have c: "classifyCategory ([] @ '' '' @ []) = General" by code_simp
  have p: "classifyPriority ([] @ '' '' @ []) = Low" by code_simp
  have d: "fst (extractDates datePatternList ([] @ '' '' @ [])) = []" by code_simp
  have v: "fst (extractActionVerbs actionVerbPatternList ([] @ '' '' @ [])) = []" by code_simp
  have pe: "extractPeople personPatternList ([] @ '' '' @ []) = Some []" by code_simp
  have lo: "extractLocations locationPatternList ([] @ '' '' @ []) = Some []" by code_simp
  from assms have pl: "personPatterns md = personPatternList"
    "locationPatterns md = locationPatternList"
    by (simp_all add: moduleInv_def)
  from classifyTask_result [OF assms, of "[]" "[]"] show ?thesis
    unfolding c p d v pl pe lo by auto
qed

theorem classifyTask_empty_witness:
  "\<exists>r md'.
      classifyTask initialModule [] [] = Some (r, md')
    \<and> category r = General
    \<and> priority r = Low
    \<and> dates (extracted_entities r) = []
    \<and> people (extracted_entities r) = []
    \<and> locations (extracted_entities r) = []
    \<and> actionVerbs (extracted_entities r) = []"
  using classifyTask_empty [OF moduleInv_initial] .

section \<open>Date extraction\<close>

lemma toLowerCU_idem:
  "toLowerCU (toLowerCU c) = toLowerCU c"
proof -
  have lt: "(of_char c :: nat) < 256" by simp
  show ?thesis
    using lt by (auto simp: toLowerCU_def Let_def)
qed

lemma toLowerCase_idem: "toLowerCase (toLowerCase s) = toLowerCase s"
  by (simp add: toLowerCase_def toLowerCU_idem)

lemma toUpperCU_AZ_word:
  "inRanges [(CHR ''A'', CHR ''Z'')] (toUpperCU c) \<Longrightarrow> isWordChar c"
proof -
  have lt: "(of_char c :: nat) < 256" by simp
  assume "inRanges [(CHR ''A'', CHR ''Z'')] (toUpperCU c)"
  with lt show ?thesis
    by (auto simp: toUpperCU_def Let_def inRanges_def isWordChar_def wordRanges_def
        split: if_splits)
qed

lemma canon_vals:
  "canonicalize True CHR ''n'' = CHR ''N''" "canonicalize True CHR ''e'' = CHR ''E''"
  "canonicalize True CHR ''x'' = CHR ''X''" "canonicalize True CHR ''t'' = CHR ''T''"
  "canonicalize True CHR '' '' = CHR '' ''" "canonicalize True CHR ''w'' = CHR ''W''"
  "canonicalize True CHR ''k'' = CHR ''K''" "canonicalize True CHR ''m'' = CHR ''M''"
  "canonicalize True CHR ''o'' = CHR ''O''" "canonicalize True CHR ''h'' = CHR ''H''"
  "canonicalize True CHR ''d'' = CHR ''D''" "canonicalize True CHR ''a'' = CHR ''A''"
  "canonicalize True CHR ''y'' = CHR ''Y''" "canonicalize True CHR ''M'' = CHR ''M''"
  by code_simp+

lemma set_setAdd: "set (setAdd ms x) = insert x (set ms)"
  by (auto simp: setAdd_def)

lemma distinct_setAdd: "distinct ms \<Longrightarrow> distinct (setAdd ms x)"
  by (simp add: setAdd_def)

lemma foldl_setAdd_set:
  "set (foldl (\<lambda>acc mt. setAdd acc (f mt)) ms A) = set ms \<union> f ` set A"
  by (induction A arbitrary: ms) (auto simp: set_setAdd)

lemma foldl_setAdd_distinct:
  "distinct ms \<Longrightarrow> distinct (foldl (\<lambda>acc mt. setAdd acc (f mt)) ms A)"
  by (induction A arbitrary: ms) (auto simp: distinct_setAdd)

lemma set_addLowerCased:
  "set (addLowerCased ms matches)
     = set ms \<union> (case matches of None \<Rightarrow> {} | Some A \<Rightarrow> toLowerCase ` set A)"
  by (cases matches) (simp_all add: addLowerCased_def foldl_setAdd_set)

lemma distinct_addLowerCased: "distinct ms \<Longrightarrow> distinct (addLowerCased ms matches)"
  by (cases matches) (simp_all add: addLowerCased_def foldl_setAdd_distinct)

lemma matchEach_distinct: "distinct ms \<Longrightarrow> distinct (fst (matchEach ps S ms))"
proof (induction ps arbitrary: ms)
  case Nil
  then show ?case by simp
next
  case (Cons p ps)
  from Cons.IH [OF distinct_addLowerCased [OF Cons.prems]] show ?case
    by (simp add: split_beta)
qed

lemma matchEach_lower:
  "\<forall>d \<in> set ms. toLowerCase d = d \<Longrightarrow>
     \<forall>d \<in> set (fst (matchEach ps S ms)). toLowerCase d = d"
proof (induction ps arbitrary: ms)
  case Nil
  then show ?case by simp
next
  case (Cons p ps)
  have "\<forall>d \<in> set (addLowerCased ms (fst (stringMatch S p))). toLowerCase d = d"
    using Cons.prems
    by (auto simp: set_addLowerCased toLowerCase_idem split: option.splits)
  from Cons.IH [OF this] show ?case by (simp add: split_beta)
qed

lemma matchEach_keeps: "set ms \<subseteq> set (fst (matchEach ps S ms))"
proof (induction ps arbitrary: ms)
  case Nil
  show ?case by simp
next
  case (Cons p ps)
  have "set ms \<subseteq> set (addLowerCased ms (fst (stringMatch S p)))"
    by (simp add: set_addLowerCased)
  with Cons.IH [of "addLowerCased ms (fst (stringMatch S p))"] show ?case
    by (auto simp: split_beta)
qed

lemma matchEach_adds:
  assumes "p \<in> set ps" and "fst (stringMatch S p) = Some A" and "w \<in> set A"
  shows "toLowerCase w \<in> set (fst (matchEach ps S ms))"
  using assms(1)
proof (induction ps arbitrary: ms)
  case Nil
  then show ?case by simp
next
  case (Cons p' ps)
  show ?case
  proof (cases "p' = p")
    case True
    with assms(2,3) have "toLowerCase w \<in> set (addLowerCased ms (fst (stringMatch S p')))"
      by (simp add: set_addLowerCased)
    with matchEach_keeps [of "addLowerCased ms (fst (stringMatch S p'))" ps S]
    show ?thesis by (auto simp: split_beta)
  next
    case False
    with Cons.prems have "p \<in> set ps" by simp
    from Cons.IH [OF this] show ?thesis by (simp add: split_beta)
  qed
qed

lemma searchFrom_finds:
  assumes "matcher (ignoreCase R) (source R) (stateAt S p) \<noteq> []" and "p \<le> length S"
  shows "i \<le> p \<Longrightarrow>
     \<exists>j y ys. searchFrom R S i = Some (j, y) \<and> i \<le> j \<and> j \<le> p
        \<and> matcher (ignoreCase R) (source R) (stateAt S j) = y # ys"
proof (induction "p - i" arbitrary: i)
  case 0
  then have "i = p" by simp
  with assms show ?case
    by (cases "matcher (ignoreCase R) (source R) (stateAt S p)")
      (simp_all add: searchFrom.simps [of R S p])
next
  case (Suc n)
  show ?case
  proof (cases "matcher (ignoreCase R) (source R) (stateAt S i)")
    case Nil
    from Suc.hyps(2) Suc.prems have "n = p - (i + 1)" "i + 1 \<le> p" by simp_all
    from Suc.hyps(1) [OF this]
    obtain j y ys where "searchFrom R S (i + 1) = Some (j, y)" "i + 1 \<le> j" "j \<le> p"
      "matcher (ignoreCase R) (source R) (stateAt S j) = y # ys" by blast
    moreover from Nil Suc.prems assms(2)
    have "searchFrom R S i = searchFrom R S (i + 1)"
      by (simp add: searchFrom.simps [of R S i])
    ultimately show ?thesis by auto
  next
    case (Cons y ys)
    with Suc.prems assms(2) show ?thesis
      by (simp add: searchFrom.simps [of R S i])
  qed
qed

lemma matchLoop_acc: "set A \<subseteq> set (fst (matchLoop rx S A))"
proof (induction rx S A rule: matchLoop.induct)
  case (1 rx S A)
  obtain res rx' where e: "exec rx S = (res, rx')" by (cases "exec rx S")
  show ?case
  proof (cases res)
    case None
    with e show ?thesis by (simp add: matchLoop.simps [of rx S A])
  next
    case (Some result)
    from "1.IH" [OF e [unfolded Some, symmetric] refl refl] e Some
    show ?thesis by (simp add: matchLoop.simps [of rx S A] Let_def)
  qed
qed

lemma matchLoop_finds:
  "matcher ic r (stateAt S p) = y # ys \<Longrightarrow> p \<le> length S \<Longrightarrow>
   \<forall>q z zs. q < p \<longrightarrow> matcher ic r (stateAt S q) = z # zs \<longrightarrow>
      q + (length (drop q S) - length (rest z)) \<le> p \<Longrightarrow>
   ignoreCase rx = ic \<Longrightarrow> source rx = r \<Longrightarrow> lastIndex rx \<le> p \<Longrightarrow>
   take (length (drop p S) - length (rest y)) (drop p S) \<in> set (fst (matchLoop rx S A))"
proof (induction rx S A rule: matchLoop.induct)
  case (1 rx S A)
  note hit = "1.prems"(1) and p = "1.prems"(2) and nov = "1.prems"(3)
  let ?w = "take (length (drop p S) - length (rest y)) (drop p S)"
  from hit "1.prems"(4,5) have "matcher (ignoreCase rx) (source rx) (stateAt S p) \<noteq> []"
    by simp
  from searchFrom_finds [OF this p "1.prems"(6)] "1.prems"(4,5)
  obtain j z zs where s: "searchFrom rx S (lastIndex rx) = Some (j, z)"
    and j: "lastIndex rx \<le> j" "j \<le> p" and mj: "matcher ic r (stateAt S j) = z # zs"
    by auto
  let ?n = "length (drop j S) - length (rest z)"
  let ?result = "\<lparr> index = j, matched = take ?n (drop j S), groups = captures z \<rparr>"
  let ?rx' = "rx\<lparr>lastIndex := j + ?n\<rparr>"
  let ?rx'' = "if matched ?result = [] then ?rx'\<lparr>lastIndex := lastIndex ?rx' + 1\<rparr> else ?rx'"
  from s have e: "exec rx S = (Some ?result, ?rx')" by (simp add: exec_def Let_def)
  have unfold: "matchLoop rx S A = matchLoop ?rx'' S (A @ [matched ?result])"
    using e by (simp add: matchLoop.simps [of rx S A] Let_def)
  show ?case
  proof (cases "j = p")
    case True
    with mj hit have "z = y" by simp
    with True have "matched ?result = ?w" by simp
    with matchLoop_acc [of "A @ [matched ?result]" ?rx'' S] unfold show ?thesis by auto
  next
    case False
    with j have lt: "j < p" by simp
    from nov lt mj have le: "j + ?n \<le> p" by blast
    have n0: "?n = 0" if "matched ?result = []"
    proof -
      have "?n \<le> length (drop j S)" by simp
      with that show ?thesis by (cases "drop j S") auto
    qed
    from le lt n0 have idx: "lastIndex ?rx'' \<le> p" by auto
    have f: "ignoreCase ?rx'' = ic" "source ?rx'' = r" using "1.prems"(4,5) by auto
    from "1.IH" [OF e [symmetric] refl refl hit p nov f idx] unfold show ?thesis by simp
  qed
qed

lemma stringMatch_finds:
  assumes hit: "matcher (ignoreCase rx) (source rx) (stateAt S p) = y # ys" and p: "p \<le> length S"
    and nov: "\<And>q z zs. q < p \<Longrightarrow> matcher (ignoreCase rx) (source rx) (stateAt S q) = z # zs \<Longrightarrow>
                q + (length (drop q S) - length (rest z)) \<le> p"
  shows "\<exists>A. fst (stringMatch S rx) = Some A
      \<and> take (length (drop p S) - length (rest y)) (drop p S) \<in> set A"
proof -
  let ?rx0 = "rx\<lparr>lastIndex := 0\<rparr>"
  have "take (length (drop p S) - length (rest y)) (drop p S) \<in> set (fst (matchLoop ?rx0 S []))"
    using nov by (intro matchLoop_finds [OF hit p]) auto
  then show ?thesis
    by (auto simp: stringMatch_def split_beta)
qed

lemma nextPattern_in_list: "newRegExp nextPattern True \<in> set datePatternList"
  by (simp add: datePatternList_def nextPattern_def nextWords_def)

lemma matcher_lit_elim:
  "z \<in> set (matcher ic (lit w) x) \<Longrightarrow>
     \<exists>u. rest x = u @ rest z \<and> map (canonicalize ic) u = map (canonicalize ic) w"
proof (induction w arbitrary: x rule: induct_list012)
  case 1
  then show ?case by (simp add: lit_def matcher.simps)
next
  case (2 c)
  then have "z \<in> set (matcher ic (Chr c) x)" by (simp add: lit_def)
  from matcher_Chr_elim [OF this] show ?case by auto
next
  case (3 c c' cs)
  from "3.prems" have "z \<in> set (matcher ic (Seq (Chr c) (lit (c' # cs))) x)"
    by (simp add: lit_def)
  from matcher_Seq_elim [OF this]
  obtain x1 where a: "x1 \<in> set (matcher ic (Chr c) x)"
    and b: "z \<in> set (matcher ic (lit (c' # cs)) x1)" by blast
  from matcher_Chr_elim [OF a] obtain ch where ch: "rest x = ch # rest x1"
    "canonicalize ic ch = canonicalize ic c" by blast
  from "3.IH"(2) [OF b] obtain u where u: "rest x1 = u @ rest z"
    "map (canonicalize ic) u = map (canonicalize ic) (c' # cs)" by blast
  from ch u have "rest x = (ch # u) @ rest z
      \<and> map (canonicalize ic) (ch # u) = map (canonicalize ic) (c # c' # cs)" by simp
  then show ?case by blast
qed

lemma matcher_words_elim:
  "ws \<noteq> [] \<Longrightarrow> z \<in> set (matcher ic (words ws) x) \<Longrightarrow>
     \<exists>w \<in> set ws. z \<in> set (matcher ic (lit w) x)"
proof (induction ws rule: induct_list012)
  case 1
  then show ?case by simp
next
  case (2 w)
  then show ?case by (simp add: words_def)
next
  case (3 w w' ws)
  from "3.prems"(2) have "z \<in> set (matcher ic (Alt (lit w) (words (w' # ws))) x)"
    by (simp add: words_def)
  from matcher_Alt_elim [OF this] "3.IH"(2) show ?case by auto
qed

lemma canonicalize_True: "canonicalize True = toUpperCU"
  by (rule ext) (simp add: canonicalize_def)

lemma next_match_shape:
  assumes "z \<in> set (matcher True nextPattern x)"
  shows "\<exists>u v w. rest x = u @ v @ rest z \<and> map toUpperCU u = ''NEXT ''
      \<and> w \<in> set nextWords \<and> map toUpperCU v = map toUpperCU w"
proof -
  have np: "nextPattern = Seq WordB (Seq (lit ''next '') (Seq (Grp 1 (words nextWords)) WordB))"
    by (simp add: nextPattern_def)
  from assms [unfolded np] matcher_Seq_elim
  obtain x1 where 1: "x1 \<in> set (matcher True WordB x)"
    and r1: "z \<in> set (matcher True (Seq (lit ''next '') (Seq (Grp 1 (words nextWords)) WordB)) x1)"
    by blast
  from matcher_Seq_elim [OF r1]
  obtain x2 where 2: "x2 \<in> set (matcher True (lit ''next '') x1)"
    and r2: "z \<in> set (matcher True (Seq (Grp 1 (words nextWords)) WordB) x2)"
    by blast
  from matcher_Seq_elim [OF r2]
  obtain x3 where 3: "x3 \<in> set (matcher True (Grp 1 (words nextWords)) x2)"
    and 4: "z \<in> set (matcher True WordB x3)"
    by blast
  from matcher_WordB_elim [OF 1] have x1: "x1 = x" by simp
  from matcher_WordB_elim [OF 4] have x3: "z = x3" by simp
  have cn: "map (canonicalize True) ''next '' = ''NEXT ''" by code_simp
  from matcher_lit_elim [OF 2] cn obtain u where u: "rest x1 = u @ rest x2"
    "map toUpperCU u = ''NEXT ''" by (auto simp: canonicalize_True)
  from matcher_Grp_elim [OF 3] obtain y' where y': "y' \<in> set (matcher True (words nextWords) x2)"
    "rest x3 = rest y'" by blast
  have "nextWords \<noteq> []" by (simp add: nextWords_def)
  from matcher_words_elim [OF this y'(1)] obtain w where w: "w \<in> set nextWords"
    "y' \<in> set (matcher True (lit w) x2)" by blast
  from matcher_lit_elim [OF w(2)] obtain v where v: "rest x2 = v @ rest y'"
    "map toUpperCU v = map toUpperCU w" by (auto simp: canonicalize_True)
  from x1 x3 u(1) v(1) y'(2) have "rest x = u @ v @ rest z" by simp
  with u(2) w(1) v(2) have "rest x = u @ v @ rest z \<and> map toUpperCU u = ''NEXT ''
      \<and> w \<in> set nextWords \<and> map toUpperCU v = map toUpperCU w"
    by (intro conjI)
  then show ?thesis by (intro exI)
qed

lemma splitFree_split:
  "splitFree (a @ b) \<Longrightarrow> a \<noteq> [] \<Longrightarrow> b \<noteq> [] \<Longrightarrow> hd b = CHR ''N'' \<Longrightarrow>
     inRanges [(CHR ''A'', CHR ''Z'')] (last a)"
proof (induction a rule: induct_list012)
  case 1
  then show ?case by simp
next
  case (2 c)
  then show ?case by (cases b) auto
next
  case (3 c c' cs)
  then show ?case by simp
qed

lemma nextWords_splitFree:
  "w \<in> set nextWords \<Longrightarrow> splitFree (''NEXT '' @ map toUpperCU w)"
proof -
  have "list_all (\<lambda>w. splitFree (''NEXT '' @ map toUpperCU w)) nextWords" by code_simp
  then show "w \<in> set nextWords \<Longrightarrow> splitFree (''NEXT '' @ map toUpperCU w)"
    by (simp add: list_all_iff)
qed

lemma wordChar_vals: "isWordChar CHR ''n''" "isWordChar CHR ''y''"
  by code_simp+

lemma next_hit:
  assumes "case pv of None \<Rightarrow> True | Some c \<Rightarrow> \<not> isWordChar c"
    and "case post of [] \<Rightarrow> True | c # _ \<Rightarrow> \<not> isWordChar c"
  shows "\<exists>y ys. matcher True nextPattern \<lparr>prev = pv, rest = ''next Monday'' @ post, captures = cp\<rparr>
             = y # ys \<and> rest y = post"
  using assms
  by (simp add: nextPattern_def nextWords_def words_def lit_def matcher.simps(1-7) Let_def
      canon_vals wordChar_vals split: option.splits list.splits)


lemma next_no_overlap:
  assumes S: "S = pre @ ''next Monday'' @ post"
    and pre: "pre = [] \<or> \<not> isWordChar (last pre)"
    and q: "q < length pre"
    and m: "matcher True nextPattern (stateAt S q) = z # zs"
  shows "q + (length (drop q S) - length (rest z)) \<le> length pre"
proof -
  let ?a = "drop q pre"
  from q have a: "?a \<noteq> []" and la: "last ?a = last pre" by simp_all
  from q pre have nw: "\<not> isWordChar (last ?a)" using la by auto
  from q S have dS: "drop q S = ?a @ ''next Monday'' @ post" by simp
  from m have "z \<in> set (matcher True nextPattern (stateAt S q))" by simp
  moreover have "rest (stateAt S q) = drop q S" by (simp add: stateAt_def)
  ultimately have "\<exists>u v w. drop q S = u @ v @ rest z \<and> map toUpperCU u = ''NEXT ''
      \<and> w \<in> set nextWords \<and> map toUpperCU v = map toUpperCU w"
    using next_match_shape [of z "stateAt S q"] by simp
  then obtain u v w where sh: "drop q S = u @ v @ rest z" and u: "map toUpperCU u = ''NEXT ''"
    and w: "w \<in> set nextWords" and v: "map toUpperCU v = map toUpperCU w"
    by (elim exE conjE)
  have len: "length (drop q S) - length (rest z) = length (u @ v)"
    by (simp add: sh)
  have "length (u @ v) \<le> length ?a"
  proof (rule ccontr)
    assume "\<not> length (u @ v) \<le> length ?a"
    then have lt: "length ?a < length (u @ v)" by simp
    from dS sh have "?a @ (''next Monday'' @ post) = (u @ v) @ rest z" by simp
    then obtain t where "(?a = (u @ v) @ t \<and> t @ (''next Monday'' @ post) = rest z)
        \<or> (?a @ t = u @ v \<and> ''next Monday'' @ post = t @ rest z)"
      unfolding append_eq_append_conv2 by blast
    moreover have "?a \<noteq> (u @ v) @ t"
    proof
      assume "?a = (u @ v) @ t"
      then have "length ?a = length ((u @ v) @ t)" by (rule arg_cong)
      with lt show False by simp
    qed
    ultimately have t: "?a @ t = u @ v" and tp: "''next Monday'' @ post = t @ rest z"
      by blast+
    from t have "length ?a + length t = length (u @ v)" by (metis length_append)
    with lt have tn: "t \<noteq> []" by auto
    from tp tn have "hd t = CHR ''n''" by (cases t) auto
    then have hd: "hd (map toUpperCU t) = CHR ''N''"
      using tn canon_vals(1) by (simp add: hd_map canonicalize_def)
    from t have "map toUpperCU ?a @ map toUpperCU t = map toUpperCU u @ map toUpperCU v"
      by (metis map_append)
    with u v have "map toUpperCU ?a @ map toUpperCU t = ''NEXT '' @ map toUpperCU w" by simp
    with nextWords_splitFree [OF w]
    have "splitFree (map toUpperCU ?a @ map toUpperCU t)" by simp
    from splitFree_split [OF this _ _ hd] a tn
    have "inRanges [(CHR ''A'', CHR ''Z'')] (last (map toUpperCU ?a))" by simp
    with a have "inRanges [(CHR ''A'', CHR ''Z'')] (toUpperCU (last ?a))"
      by (simp add: last_map)
    from toUpperCU_AZ_word [OF this] nw show False by simp
  qed
  with len q show ?thesis by simp
qed

lemma stateAt_append:
  "stateAt (pre @ xs) (length pre)
     = \<lparr> prev = (if pre = [] then None else Some (last pre)), rest = xs,
         captures = (\<lambda>_. None) \<rparr>"
  by (simp add: stateAt_def nth_append last_conv_nth)

lemma lower_next_monday: "toLowerCase ''next Monday'' = ''next monday''"
  by code_simp

lemma next_monday_in_dates:
  assumes S: "S = pre @ ''next Monday'' @ post"
    and pre: "pre = [] \<or> \<not> isWordChar (last pre)"
    and post: "post = [] \<or> \<not> isWordChar (hd post)"
  shows "''next monday'' \<in> set (fst (extractDates datePatternList S))"
proof -
  let ?rx = "newRegExp nextPattern True"
  let ?p = "length pre"
  from pre have b1: "case (if pre = [] then None else Some (last pre)) of
      None \<Rightarrow> True | Some c \<Rightarrow> \<not> isWordChar c" by auto
  from post have b2: "case post of [] \<Rightarrow> True | c # _ \<Rightarrow> \<not> isWordChar c"
    by (cases post) auto
  from next_hit [OF b1 b2, of "\<lambda>_. None"]
  obtain y ys where hit: "matcher True nextPattern (stateAt S ?p) = y # ys"
    and ry: "rest y = post"
    unfolding S stateAt_append by blast
  have f: "ignoreCase ?rx = True" "source ?rx = nextPattern" by (simp_all add: newRegExp_def)
  have p: "?p \<le> length S" by (simp add: S)
  have "\<exists>A. fst (stringMatch S ?rx) = Some A
      \<and> take (length (drop ?p S) - length (rest y)) (drop ?p S) \<in> set A"
  proof (rule stringMatch_finds [OF _ p])
    show "matcher (ignoreCase ?rx) (source ?rx) (stateAt S ?p) = y # ys"
      using hit f by simp
  next
    fix q z zs
    assume "q < ?p" and "matcher (ignoreCase ?rx) (source ?rx) (stateAt S q) = z # zs"
    with f next_no_overlap [OF S pre, of q z zs]
    show "q + (length (drop q S) - length (rest z)) \<le> ?p" by simp
  qed
  moreover have "take (length (drop ?p S) - length (rest y)) (drop ?p S) = ''next Monday''"
    by (simp add: S ry)
  ultimately obtain A where A: "fst (stringMatch S ?rx) = Some A" "''next Monday'' \<in> set A"
    by auto
  from matchEach_adds [OF nextPattern_in_list A, of "[]"] show ?thesis
    by (simp add: extractDates_def lower_next_monday)
qed


text \<open>
  Claim C8 does not hold as stated: the pattern is anchored by \<open>\b\<close> on both sides, so an
  occurrence of "next Monday" inside a longer word is not a match. For the title
  "xnext Monday" the text contains "next Monday" and the dates list is ["monday"].
\<close>

theorem next_monday_counterexample:
  "sublist ''next Monday'' (''xnext Monday'' @ '' '' @ [])
   \<and> map_option (dates \<circ> extracted_entities \<circ> fst)
        (classifyTask initialModule ''xnext Monday'' []) = Some [''monday'']"
  by code_simp

text \<open>
  Claim C8, amended. In every state of the module and for every input, the dates list
  has no two equal entries and every entry is in lower case, so no two entries differ
  in case only. For every input whose concatenated text contains "next Monday" with no
  word character (letter, digit or underscore) directly before it and none directly
  after it, the dates list contains "next monday".
\<close>

theorem next_monday_extracted:
  assumes "moduleInv md"
  shows "\<exists>r md'.
      classifyTask md title description = Some (r, md')
    \<and> distinct (dates (extracted_entities r))
    \<and> (\<forall>d \<in> set (dates (extracted_entities r)). toLowerCase d = d)
    \<and> (\<forall>pre post.
          title @ '' '' @ description = pre @ ''next Monday'' @ post
          \<and> (pre = [] \<or> \<not> isWordChar (last pre))
          \<and> (post = [] \<or> \<not> isWordChar (hd post))
          \<longrightarrow> ''next monday'' \<in> set (dates (extracted_entities r)))"
proof -
  let ?S = "title @ '' '' @ description"
  from classifyTask_result [OF assms, of title description]
  obtain r where r: "classifyTask md title description = Some (r, initialModule)"
    and d: "dates (extracted_entities r) = fst (extractDates datePatternList ?S)"
    by auto
  have 1: "distinct (fst (extractDates datePatternList ?S))"
    unfolding extractDates_def by (rule matchEach_distinct) simp
  have 2: "\<forall>d \<in> set (fst (extractDates datePatternList ?S)). toLowerCase d = d"
    unfolding extractDates_def by (rule matchEach_lower) simp
  have 3: "\<forall>pre post. ?S = pre @ ''next Monday'' @ post
          \<and> (pre = [] \<or> \<not> isWordChar (last pre))
          \<and> (post = [] \<or> \<not> isWordChar (hd post))
          \<longrightarrow> ''next monday'' \<in> set (fst (extractDates datePatternList ?S))"
    using next_monday_in_dates by blast
  from r 1 2 3 show ?thesis unfolding d [symmetric] by blast
qed

theorem next_monday_extracted_witness:
  "moduleInv initialModule
   \<and> (\<exists>r md'. classifyTask initialModule ''Call next Monday'' [] = Some (r, md')
        \<and> distinct (dates (extracted_entities r))
        \<and> ''next monday'' \<in> set (dates (extracted_entities r)))"
proof -
  have s: "''Call next Monday'' @ '' '' @ [] = ''Call '' @ ''next Monday'' @ '' ''" by simp
  have b1: "\<not> isWordChar (last ''Call '')" by code_simp
  have b2: "\<not> isWordChar (hd '' '')" by code_simp
  from next_monday_extracted [OF moduleInv_initial, of "''Call next Monday''" "[]"]
  obtain r md' where r: "classifyTask initialModule ''Call next Monday'' [] = Some (r, md')"
    and d: "distinct (dates (extracted_entities r))"
    and n: "\<forall>pre post.
          ''Call next Monday'' @ '' '' @ [] = pre @ ''next Monday'' @ post
          \<and> (pre = [] \<or> \<not> isWordChar (last pre))
          \<and> (post = [] \<or> \<not> isWordChar (hd post))
          \<longrightarrow> ''next monday'' \<in> set (dates (extracted_entities r))"
    by blast
  from n s b1 b2 have "''next monday'' \<in> set (dates (extracted_entities r))" by blast
  with r d moduleInv_initial show ?thesis by blast
qed

end
